theory Spec2Isabelle
  imports Main "HOL-Library.Word"
begin

section \<open>The grid of energy levels\<close>

text \<open>
  \<^verbatim>\<open>solver.cpp\<close> holds the one function of the repository that computes something:
  \<^verbatim>\<open>int step(std::vector<std::string>& levels)\<close>. The grid is a vector of strings, a
  cell is a \<^verbatim>\<open>char\<close>: an 8-bit value whose increment wraps around. The digits
  \<^verbatim>\<open>'0'\<close> .. \<^verbatim>\<open>'9'\<close> are the codes 48 .. 57.

  The source's \<^verbatim>\<open>int\<close> is 32 bits wide. The two sizes \<^verbatim>\<open>R\<close> and \<^verbatim>\<open>C\<close> are casts of
  a \<^verbatim>\<open>size_t\<close>, which keep the low 32 bits and read them as a signed value, and the
  counter \<^verbatim>\<open>num_flashes\<close> is a 32-bit word whose increment wraps around, as the
  machine's does (the increment past \<open>2 ^ 31 - 1\<close> is an overflow of a signed \<^verbatim>\<open>int\<close>,
  which the language leaves open; only a grid of at least \<open>2 ^ 31\<close> cells gets there).
  A coordinate lies between \<open>- 1\<close> and \<^verbatim>\<open>R\<close> or \<^verbatim>\<open>C\<close>, both
  below \<open>2 ^ 31\<close>, so that it never overflows: coordinates are integers.
\<close>

type_synonym level = "8 word"
type_synonym grid = "level list list"
type_synonym coord = "int \<times> int"

text \<open>\<^verbatim>\<open>static_cast<int>\<close> of a size.\<close>

definition to_int :: "nat \<Rightarrow> int" where
  "to_int n = sint (word_of_nat n :: 32 word)"

abbreviation chr0 :: level where "chr0 \<equiv> 48"
abbreviation chr9 :: level where "chr9 \<equiv> 57"

text \<open>
  Two ways a call can fail to return: \<^verbatim>\<open>levels.at(0)\<close> throws \<^verbatim>\<open>std::out_of_range\<close> on
  an empty vector, and \<^verbatim>\<open>operator[]\<close> outside a vector or string has no defined
  behaviour; the model stops there with the value \<open>UndefinedBehaviour\<close>. That value
  marks a call of which the language says nothing (the compiled program may well return);
  the theorems below are about calls that do not reach it.
\<close>

datatype error = OutOfRange | UndefinedBehaviour

text \<open>The positions \<^verbatim>\<open>levels[r][c]\<close> that exist and may be written.\<close>

definition in_range :: "grid \<Rightarrow> int \<Rightarrow> int \<Rightarrow> bool" where
  "in_range levels r c \<longleftrightarrow>
     0 \<le> r \<and> r < int (length levels) \<and> 0 \<le> c \<and> c < int (length (levels ! nat r))"

definition get_cell :: "grid \<Rightarrow> int \<Rightarrow> int \<Rightarrow> level" where
  "get_cell levels r c = levels ! nat r ! nat c"

definition set_cell :: "grid \<Rightarrow> int \<Rightarrow> int \<Rightarrow> level \<Rightarrow> grid" where
  "set_cell levels r c v = levels[nat r := (levels ! nat r)[nat c := v]]"

text \<open>
  Reading \<^verbatim>\<open>levels[r][c]\<close>: a \<^verbatim>\<open>std::string\<close> may also be read (not modified) at
  position \<^verbatim>\<open>size()\<close>, where it holds the terminator.
\<close>

definition read_cell :: "grid \<Rightarrow> int \<Rightarrow> int \<Rightarrow> level option" where
  "read_cell levels r c =
     (if 0 \<le> r \<and> r < int (length levels) then
        (if 0 \<le> c \<and> c < int (length (levels ! nat r)) then Some (levels ! nat r ! nat c)
         else if c = int (length (levels ! nat r)) then Some 0
         else None)
      else None)"

section \<open>The step function\<close>

text \<open>
  \<^verbatim>\<open>for (int r = 0; r < R; r++) for (int c = 0; c < C; c++)\<close>: the coordinates in the
  order both double loops of the source visit them.
\<close>

definition all_coords :: "int \<Rightarrow> int \<Rightarrow> coord list" where
  "all_coords R C = [(r, c). r \<leftarrow> [0..R - 1], c \<leftarrow> [0..C - 1]]"

text \<open>
  The neighbours a flash at \<^verbatim>\<open>(r, c)\<close> puts on the queue: the two loops over
  \<^verbatim>\<open>std::array{-1, 0, 1}\<close>, skipping \<^verbatim>\<open>dr = dc = 0\<close> and every position outside
  \<^verbatim>\<open>[0, R) x [0, C)\<close>.
\<close>

definition neighbours :: "int \<Rightarrow> int \<Rightarrow> int \<Rightarrow> int \<Rightarrow> coord list" where
  "neighbours R C r c =
     [(r + dr, c + dc). dr \<leftarrow> [- 1, 0, 1], dc \<leftarrow> [- 1, 0, 1],
        \<not> (dr = 0 \<and> dc = 0),
        0 \<le> r + dr \<and> r + dr < R \<and> 0 \<le> c + dc \<and> c + dc < C]"

text \<open>The variables of the \<^verbatim>\<open>while\<close> loop: the grid, the queue and the counter.\<close>

record state =
  levels :: grid
  Q :: "coord list"
  num_flashes :: "32 word"

text \<open>
  One iteration of \<^verbatim>\<open>while (!Q.empty())\<close>: take the front, test it against \<^verbatim>\<open>'9'\<close>,
  count and enqueue the neighbours at the back if it flashes, and increment the cell in
  every case. The increment writes the cell, so the position has to exist.
\<close>

definition loop_body :: "int \<Rightarrow> int \<Rightarrow> state \<Rightarrow> error + state" where
  "loop_body R C s =
     (case Q s of
        [] \<Rightarrow> Inl UndefinedBehaviour
      | (r, c) # rest \<Rightarrow>
          if \<not> in_range (levels s) r c then Inl UndefinedBehaviour
          else if get_cell (levels s) r c = chr9 then
            Inr \<lparr>levels = set_cell (levels s) r c (get_cell (levels s) r c + 1),
                 Q = rest @ neighbours R C r c,
                 num_flashes = num_flashes s + 1\<rparr>
          else
            Inr \<lparr>levels = set_cell (levels s) r c (get_cell (levels s) r c + 1),
                 Q = rest,
                 num_flashes = num_flashes s\<rparr>)"

text \<open>
  The measure of the loop, good for every grid, valid or not: a cell at code \<open>v\<close> is
  \<open>(v - 58) mod 256\<close> increments past its last flash (198 is \<open>- 58\<close> on 8 bits), and
  a flash, which adds at most 8 entries to the queue, takes 255 of them back.
\<close>

definition potential :: "grid \<Rightarrow> nat" where
  "potential g = sum_list (map (\<lambda>row. sum_list (map (\<lambda>v. unat (v + 198)) row)) g)"

definition loop_measure :: "state \<Rightarrow> nat" where
  "loop_measure s = 2 * length (Q s) + potential (levels s)"

function while_loop :: "int \<Rightarrow> int \<Rightarrow> state \<Rightarrow> error + state" where
  "while_loop R C s =
     (if Q s = [] then Inr s
      else case loop_body R C s of
             Inl e \<Rightarrow> Inl e
           | Inr s' \<Rightarrow> while_loop R C s')"
  by pat_completeness auto

text \<open>
  The state after \<open>k\<close> iterations of the loop (or at its exit, if that comes first), or
  the failure met on the way.
\<close>

fun iterate :: "nat \<Rightarrow> int \<Rightarrow> int \<Rightarrow> state \<Rightarrow> error + state" where
  "iterate 0 R C s = Inr s"
| "iterate (Suc k) R C s =
     (if Q s = [] then Inr s
      else case loop_body R C s of
             Inl e \<Rightarrow> Inl e
           | Inr s' \<Rightarrow> iterate k R C s')"

text \<open>
  The final double loop: \<^verbatim>\<open>if (levels[r][c] > '9') levels[r][c] = '0'\<close>. The comparison
  is one of \<^verbatim>\<open>char\<close>s promoted to \<^verbatim>\<open>int\<close>, signed as on x86-64.
\<close>

fun sweep :: "coord list \<Rightarrow> grid \<Rightarrow> error + grid" where
  "sweep [] g = Inr g"
| "sweep ((r, c) # rest) g =
     (case read_cell g r c of
        None \<Rightarrow> Inl UndefinedBehaviour
      | Some v \<Rightarrow>
          if chr9 <s v then
            (if in_range g r c then sweep rest (set_cell g r c chr0) else Inl UndefinedBehaviour)
          else sweep rest g)"

text \<open>
  The state in which the \<^verbatim>\<open>while\<close> loop starts: every position of
  \<^verbatim>\<open>[0, R) x [0, C)\<close> queued once, the counter at 0.
\<close>

definition init :: "grid \<Rightarrow> state" where
  "init g =
     \<lparr>levels = g, Q = all_coords (to_int (length g)) (to_int (length (g ! 0))), num_flashes = 0\<rparr>"

text \<open>
  \<^verbatim>\<open>step\<close>: \<^verbatim>\<open>levels.at(0)\<close> throws on an empty grid; then the two casts, the loop,
  the sweep, and the counter returned as an \<^verbatim>\<open>int\<close>.
\<close>

definition step :: "grid \<Rightarrow> error + grid \<times> int" where
  "step g =
     (if g = [] then Inl OutOfRange
      else
        let R = to_int (length g); C = to_int (length (g ! 0)) in
        case while_loop R C (init g) of
          Inl e \<Rightarrow> Inl e
        | Inr s \<Rightarrow>
            (case sweep (all_coords R C) (levels s) of
               Inl e \<Rightarrow> Inl e
             | Inr g' \<Rightarrow> Inr (g', sint (num_flashes s))))"

section \<open>Grids the caller may pass, and the positions of a grid\<close>

text \<open>
  The positions \<^verbatim>\<open>[0, R) x [0, C)\<close> both double loops range over, and what it means
  for a grid to have a cell at each of them.
\<close>

definition box :: "int \<Rightarrow> int \<Rightarrow> coord set" where
  "box R C = {0..<R} \<times> {0..<C}"

definition covers :: "int \<Rightarrow> int \<Rightarrow> grid \<Rightarrow> bool" where
  "covers R C g \<longleftrightarrow> (\<forall>(r, c) \<in> box R C. in_range g r c)"

text \<open>
  The input the specification asks for: at least one row, all rows as long as the first,
  every cell a digit \<^verbatim>\<open>'0'\<close> .. \<^verbatim>\<open>'9'\<close>.
\<close>

definition rectangular :: "grid \<Rightarrow> bool" where
  "rectangular g \<longleftrightarrow> (\<forall>row \<in> set g. length row = length (g ! 0))"

definition valid_grid :: "grid \<Rightarrow> bool" where
  "valid_grid g \<longleftrightarrow>
     g \<noteq> [] \<and> rectangular g \<and> (\<forall>row \<in> set g. \<forall>v \<in> set row. chr0 \<le> v \<and> v \<le> chr9)"

text \<open>
  The two sizes as the source has them, \<^verbatim>\<open>R\<close> and \<^verbatim>\<open>C\<close>, and the numbers of rows
  and of columns they are cast from.
\<close>

abbreviation rows :: "grid \<Rightarrow> int" where "rows g \<equiv> to_int (length g)"
abbreviation cols :: "grid \<Rightarrow> int" where "cols g \<equiv> to_int (length (g ! 0))"

abbreviation height :: "grid \<Rightarrow> int" where "height g \<equiv> int (length g)"
abbreviation width :: "grid \<Rightarrow> int" where "width g \<equiv> int (length (g ! 0))"

section \<open>The invariant of the loop\<close>

text \<open>
  The cells that have flashed are those above \<^verbatim>\<open>'9'\<close>; the sources of a position are
  the cells whose flash puts it on the queue.
\<close>

definition flashed :: "int \<Rightarrow> int \<Rightarrow> grid \<Rightarrow> coord set" where
  "flashed R C g = {(r, c). (r, c) \<in> box R C \<and> 58 \<le> unat (get_cell g r c)}"

definition sources :: "int \<Rightarrow> int \<Rightarrow> coord \<Rightarrow> coord set" where
  "sources R C z = {(r, c). (r, c) \<in> box R C \<and> z \<in> set (neighbours R C r c)}"

text \<open>What the loop needs of the grid it starts from: a digit at every position.\<close>

definition start_ok :: "int \<Rightarrow> int \<Rightarrow> grid \<Rightarrow> bool" where
  "start_ok R C g0 \<longleftrightarrow>
     covers R C g0 \<and>
     (\<forall>(r, c) \<in> box R C. 48 \<le> unat (get_cell g0 r c) \<and> unat (get_cell g0 r c) \<le> 57)"

text \<open>
  The invariant of \<^verbatim>\<open>while (!Q.empty())\<close> on such a grid \<open>g0\<close>: the shape is that of
  \<open>g0\<close>, the queue holds positions of the grid only, a cell and its pending queue entries
  add up to its starting value, plus one, plus the number of its sources that have
  flashed, and the counter is the number of cells that have flashed.
\<close>

definition run_inv :: "int \<Rightarrow> int \<Rightarrow> grid \<Rightarrow> state \<Rightarrow> bool" where
  "run_inv R C g0 s \<longleftrightarrow>
     map length (levels s) = map length g0 \<and>
     set (Q s) \<subseteq> box R C \<and>
     (\<forall>(r, c) \<in> box R C.
        unat (get_cell (levels s) r c) + count_list (Q s) (r, c)
          = unat (get_cell g0 r c) + 1 + card (flashed R C (levels s) \<inter> sources R C (r, c))) \<and>
     num_flashes s = of_nat (card (flashed R C (levels s)))"

text \<open>
  A set of positions is closed when it holds every cell that the flashes of the set's
  own cells (and the one increment every cell gets) take to \<^verbatim>\<open>'9'\<close> and above. The
  cells that flash are in every closed set.
\<close>

definition closed :: "int \<Rightarrow> int \<Rightarrow> grid \<Rightarrow> coord set \<Rightarrow> bool" where
  "closed R C g0 S \<longleftrightarrow>
     (\<forall>(r, c) \<in> box R C.
        58 \<le> unat (get_cell g0 r c) + 1 + card (S \<inter> sources R C (r, c)) \<longrightarrow> (r, c) \<in> S)"

section \<open>Flash events and the inputs of two scenarios\<close>

text \<open>
  The cell that flashes in iteration \<open>i\<close> (counted from 0) of the loop started in state
  \<open>s\<close>, if one does: the front of the queue, found at \<^verbatim>\<open>'9'\<close>.
\<close>

definition flash_at :: "int \<Rightarrow> int \<Rightarrow> state \<Rightarrow> nat \<Rightarrow> coord option" where
  "flash_at R C s i =
     (case iterate i R C s of
        Inl e \<Rightarrow> None
      | Inr si \<Rightarrow>
          (case Q si of
             [] \<Rightarrow> None
           | (r, c) # rest \<Rightarrow>
               if in_range (levels si) r c \<and> get_cell (levels si) r c = chr9 then Some (r, c)
               else None))"

text \<open>A grid of zeros, and a grid with one \<^verbatim>\<open>'9'\<close> whose neighbours are all \<^verbatim>\<open>'0'\<close>.\<close>

definition all_zeros :: "grid \<Rightarrow> bool" where
  "all_zeros g \<longleftrightarrow> g \<noteq> [] \<and> rectangular g \<and> (\<forall>row \<in> set g. \<forall>v \<in> set row. v = chr0)"

definition lone_nine :: "grid \<Rightarrow> int \<Rightarrow> int \<Rightarrow> bool" where
  "lone_nine g r c \<longleftrightarrow>
     valid_grid g \<and> (r, c) \<in> box (height g) (width g) \<and> get_cell g r c = chr9 \<and>
     (\<forall>(a, b) \<in> set (neighbours (height g) (width g) r c). get_cell g a b = chr0) \<and>
     (\<forall>(a, b) \<in> box (height g) (width g). (a, b) \<noteq> (r, c) \<longrightarrow> get_cell g a b \<noteq> chr9)"

section \<open>Cells, neighbours and the termination of the loop\<close>

text \<open>
  Writing a cell keeps the shape of the grid and changes that cell only. A flash enqueues
  at most 8 positions, so every iteration lowers the measure: the loop is a total
  function, whatever the grid holds.
\<close>

lemma length_set_cell [simp]: "length (set_cell g r c v) = length g"
  by (simp add: set_cell_def)

lemma row_length_set_cell [simp]: "length (set_cell g r c v ! i) = length (g ! i)"
  by (cases "nat r < length g") (simp_all add: set_cell_def nth_list_update list_update_beyond)

lemma map_length_set_cell [simp]: "map length (set_cell g r c v) = map length g"
  by (rule nth_equalityI) simp_all

lemma in_range_set_cell [simp]: "in_range (set_cell g r c v) r' c' = in_range g r' c'"
  by (simp add: in_range_def)

lemma get_set_cell:
  "in_range g r c \<Longrightarrow> in_range g r' c' \<Longrightarrow>
   get_cell (set_cell g r c v) r' c' = (if r' = r \<and> c' = c then v else get_cell g r' c')"
  by (auto simp: in_range_def get_cell_def set_cell_def nth_list_update)

lemma neighbours_filter:
  "neighbours R C r c =
     filter (\<lambda>(r', c'). 0 \<le> r' \<and> r' < R \<and> 0 \<le> c' \<and> c' < C)
       [(r - 1, c - 1), (r - 1, c), (r - 1, c + 1), (r, c - 1), (r, c + 1),
        (r + 1, c - 1), (r + 1, c), (r + 1, c + 1)]"
proof -
  have f: "filter P (x # xs) = (if P x then [x] else []) @ filter P xs" for P and x :: coord and xs
    by simp
  show ?thesis
    by (simp add: neighbours_def f del: filter.simps split del: if_split cong: if_cong)
qed

lemma length_neighbours: "length (neighbours R C r c) \<le> 8"
  unfolding neighbours_filter by (rule order_trans [OF length_filter_le]) simp

lemma sum_list_map_update:
  fixes f :: "'a \<Rightarrow> nat"
  shows "i < length xs \<Longrightarrow> sum_list (map f (xs[i := y])) + f (xs ! i) = sum_list (map f xs) + f y"
proof (induction xs arbitrary: i)
  case Nil
  then show ?case by simp
next
  case (Cons x xs)
  then show ?case by (cases i) (simp_all add: algebra_simps)
qed

lemma potential_set_cell:
  assumes "in_range g r c"
  shows "potential (set_cell g r c v) + unat (get_cell g r c + 198) = potential g + unat (v + 198)"
proof -
  let ?f = "\<lambda>row. sum_list (map (\<lambda>v. unat (v + 198)) row)"
  from assms have r: "nat r < length g" and c: "nat c < length (g ! nat r)"
    by (auto simp: in_range_def)
  have "potential (set_cell g r c v) + ?f (g ! nat r) = potential g + ?f ((g ! nat r)[nat c := v])"
    unfolding potential_def set_cell_def using sum_list_map_update [OF r, of ?f] by simp
  moreover have "?f ((g ! nat r)[nat c := v]) + unat (g ! nat r ! nat c + 198) = ?f (g ! nat r) + unat (v + 198)"
    using sum_list_map_update [OF c, of "\<lambda>v. unat (v + 198)"] by simp
  ultimately show ?thesis by (simp add: get_cell_def)
qed

lemma unat_succ_potential: "v \<noteq> chr9 \<Longrightarrow> unat (v + 1 + 198) = Suc (unat (v + 198))"
  for v :: level
  by unat_arith auto

lemma loop_body_measure:
  assumes "loop_body R C s = Inr s'"
  shows "loop_measure s' < loop_measure s"
proof (cases "Q s")
  case Nil
  with assms show ?thesis by (simp add: loop_body_def)
next
  case (Cons x rest)
  obtain r c where x: "x = (r, c)" by (cases x)
  let ?v = "get_cell (levels s) r c"
  from assms Cons x have inr: "in_range (levels s) r c"
    by (auto simp: loop_body_def split: if_splits)
  have pot: "potential (set_cell (levels s) r c (?v + 1)) + unat (?v + 198)
      = potential (levels s) + unat (?v + 1 + 198)"
    by (rule potential_set_cell [OF inr])
  show ?thesis
  proof (cases "?v = chr9")
    case True
    with assms Cons x inr
    have s': "levels s' = set_cell (levels s) r c (?v + 1)" "Q s' = rest @ neighbours R C r c"
      by (auto simp: loop_body_def)
    from pot True have "potential (levels s') + 255 = potential (levels s)"
      by (simp add: s')
    with length_neighbours [of R C r c] show ?thesis
      by (simp add: loop_measure_def s' Cons)
  next
    case False
    with assms Cons x inr
    have s': "levels s' = set_cell (levels s) r c (?v + 1)" "Q s' = rest"
      by (auto simp: loop_body_def)
    from pot unat_succ_potential [OF False]
    have "potential (levels s') = Suc (potential (levels s))"
      unfolding s' by linarith
    then show ?thesis
      by (simp add: loop_measure_def s' Cons)
  qed
qed

termination while_loop
  by (relation "measure (\<lambda>(R, C, s). loop_measure s)") (simp_all add: loop_body_measure)

declare while_loop.simps [simp del]

lemma finite_box [simp]: "finite (box R C)"
  by (simp add: box_def)

lemma card_box: "card (box R C) = nat R * nat C"
  by (simp add: box_def card_cartesian_product)

lemma in_box_iff: "(r, c) \<in> box R C \<longleftrightarrow> 0 \<le> r \<and> r < R \<and> 0 \<le> c \<and> c < C"
  by (auto simp: box_def)

lemma set_all_coords: "set (all_coords R C) = box R C"
  by (auto simp: all_coords_def box_def)

lemma distinct_all_coords: "distinct (all_coords R C)"
proof -
  have "all_coords R C = List.product [0..R - 1] [0..C - 1]"
    by (simp add: all_coords_def product_concat_map)
  then show ?thesis by (simp add: distinct_product)
qed

lemma length_all_coords: "length (all_coords R C) = nat R * nat C"
  using distinct_card [OF distinct_all_coords, of R C] by (simp add: set_all_coords card_box)

lemma neighbours_iff:
  "(r', c') \<in> set (neighbours R C r c) \<longleftrightarrow>
     (r', c') \<in> box R C \<and> (r', c') \<noteq> (r, c) \<and> \<bar>r' - r\<bar> \<le> 1 \<and> \<bar>c' - c\<bar> \<le> 1"
proof -
  have near: "\<bar>a - b\<bar> \<le> 1 \<longleftrightarrow> a = b - 1 \<or> a = b \<or> a = b + 1" for a b :: int
    by arith
  have "(r', c') \<in> set [(r - 1, c - 1), (r - 1, c), (r - 1, c + 1), (r, c - 1), (r, c + 1),
        (r + 1, c - 1), (r + 1, c), (r + 1, c + 1)] \<longleftrightarrow>
      (r', c') \<noteq> (r, c) \<and> (r' = r - 1 \<or> r' = r \<or> r' = r + 1) \<and> (c' = c - 1 \<or> c' = c \<or> c' = c + 1)"
    by (simp only: list.set insert_iff empty_iff prod.inject) fastforce
  then show ?thesis
    unfolding neighbours_filter in_box_iff near set_filter by blast
qed

lemma distinct_neighbours: "distinct (neighbours R C r c)"
  unfolding neighbours_filter by (rule distinct_filter) simp

lemma neighbours_in_box: "set (neighbours R C r c) \<subseteq> box R C"
  by (auto simp: neighbours_iff)

lemma not_self_neighbour: "(r, c) \<notin> set (neighbours R C r c)"
  by (simp add: neighbours_iff)

lemma count_list_distinct: "distinct xs \<Longrightarrow> count_list xs x = (if x \<in> set xs then 1 else 0)"
  by (induction xs) auto

lemma loop_body_shape:
  "loop_body R C s = Inr s' \<Longrightarrow> map length (levels s') = map length (levels s)"
  by (auto simp: loop_body_def split: list.splits if_splits)

lemma while_loop_shape:
  "while_loop R C s = Inr s' \<Longrightarrow> map length (levels s') = map length (levels s)"
proof (induction R C s rule: while_loop.induct)
  case (1 R C s)
  show ?case
  proof (cases "Q s = []")
    case True
    with "1.prems" show ?thesis by (simp add: while_loop.simps [of R C s])
  next
    case False
    with "1.prems" obtain s1 where b: "loop_body R C s = Inr s1" and w: "while_loop R C s1 = Inr s'"
      by (auto simp: while_loop.simps [of R C s] split: sum.splits)
    from "1.IH" [OF False b w] loop_body_shape [OF b] show ?thesis by simp
  qed
qed

lemma sweep_shape: "sweep cs g = Inr g' \<Longrightarrow> map length g' = map length g"
proof (induction cs g rule: sweep.induct)
  case (1 g)
  then show ?case by simp
next
  case (2 r c rest g)
  then show ?case by (auto split: option.splits if_splits)
qed

lemma step_shape:
  assumes "step g = Inr (g', n)"
  shows "map length g' = map length g"
proof -
  from assms obtain s where w: "while_loop (rows g) (cols g) (init g) = Inr s"
    and sw: "sweep (all_coords (rows g) (cols g)) (levels s) = Inr g'"
    by (auto simp: step_def Let_def split: if_splits sum.splits)
  from while_loop_shape [OF w] sweep_shape [OF sw] show ?thesis by (simp add: init_def)
qed

lemma in_range_shape: "map length g' = map length g \<Longrightarrow> in_range g' r c = in_range g r c"
proof -
  assume m: "map length g' = map length g"
  then have l: "length g' = length g" by (rule map_eq_imp_length_eq)
  have "length (g' ! i) = length (g ! i)" if "i < length g" for i
    using nth_map [of i g' length] nth_map [of i g length] that l m by simp
  with l show ?thesis by (auto simp: in_range_def)
qed

lemma covers_shape:
  assumes "map length g' = map length g"
  shows "covers R C g' = covers R C g"
  unfolding covers_def in_range_shape [OF assms] by (rule refl)

lemma loop_body_queue:
  assumes "loop_body R C s = Inr s'" and "set (Q s) \<subseteq> box R C"
  shows "set (Q s') \<subseteq> box R C"
proof -
  from assms(1) obtain r c rest where q: "Q s = (r, c) # rest"
    by (cases "Q s") (auto simp: loop_body_def)
  with assms(1) have "set (Q s') \<subseteq> set rest \<union> set (neighbours R C r c)"
    by (auto simp: loop_body_def split: if_splits)
  with assms(2) q neighbours_in_box [of R C r c] show ?thesis by auto
qed



lemma while_loop_exit: "while_loop R C s = Inr s' \<Longrightarrow> Q s' = []"
proof (induction R C s rule: while_loop.induct)
  case (1 R C s)
  show ?case
  proof (cases "Q s = []")
    case True
    with "1.prems" show ?thesis by (simp add: while_loop.simps [of R C s])
  next
    case False
    with "1.prems" obtain s1 where b: "loop_body R C s = Inr s1" and w: "while_loop R C s1 = Inr s'"
      by (auto simp: while_loop.simps [of R C s] split: sum.splits)
    from "1.IH" [OF False b w] show ?thesis .
  qed
qed

lemma read_cell_in_range: "in_range g r c \<Longrightarrow> read_cell g r c = Some (get_cell g r c)"
  by (simp add: in_range_def read_cell_def get_cell_def)

lemma covers_rows:
  assumes "g \<noteq> []"
  shows "covers (int (length g)) (int (length (g ! 0))) g \<longleftrightarrow> (\<forall>row \<in> set g. length (g ! 0) \<le> length row)"
proof
  assume c: "covers (int (length g)) (int (length (g ! 0))) g"
  show "\<forall>row \<in> set g. length (g ! 0) \<le> length row"
  proof
    fix row assume "row \<in> set g"
    then obtain i where i: "i < length g" "g ! i = row" by (auto simp: in_set_conv_nth)
    show "length (g ! 0) \<le> length row"
    proof (rule ccontr)
      assume "\<not> length (g ! 0) \<le> length row"
      with i have "(int i, int (length row)) \<in> box (int (length g)) (int (length (g ! 0)))"
        by (simp add: in_box_iff)
      with c have "in_range g (int i) (int (length row))" by (auto simp: covers_def)
      with i show False by (simp add: in_range_def)
    qed
  qed
next
  assume r: "\<forall>row \<in> set g. length (g ! 0) \<le> length row"
  show "covers (int (length g)) (int (length (g ! 0))) g"
    unfolding covers_def
  proof (clarify)
    fix r c assume "(r, c) \<in> box (int (length g)) (int (length (g ! 0)))"
    then have b: "0 \<le> r" "nat r < length g" "0 \<le> c" "c < int (length (g ! 0))"
      by (auto simp: in_box_iff)
    then have "g ! nat r \<in> set g" by simp
    with r have "length (g ! 0) \<le> length (g ! nat r)" by blast
    with b show "in_range g r c" by (simp add: in_range_def)
  qed
qed

lemma to_int_le: "to_int n \<le> int n"
proof -
  have "sint (word_of_nat n :: 32 word) = signed_take_bit 31 (uint (word_of_nat n :: 32 word))"
    by (simp add: sint_uint)
  also have "\<dots> \<le> uint (word_of_nat n :: 32 word)"
    by (simp add: signed_take_bit_int_less_eq_self_iff order_trans [of _ 0])
  also have "\<dots> = int (n mod 2 ^ 32)"
    by (simp add: uint_nat unat_of_nat)
  also have "\<dots> \<le> int n" by simp
  finally show ?thesis by (simp add: to_int_def)
qed

lemma to_int_fits: "n < 2 ^ 31 \<Longrightarrow> to_int n = int n"
proof -
  assume n: "n < 2 ^ 31"
  then have i: "int n < 2 ^ 31" by (metis of_nat_less_iff of_nat_numeral of_nat_power)
  from n have "n mod 2 ^ 32 = n" by simp
  then have u: "uint (word_of_nat n :: 32 word) = int n"
    by (simp add: uint_nat unat_of_nat)
  have "signed_take_bit 31 (int n) = int n"
    using i by (intro signed_take_bit_int_eq_self) simp_all
  with u show ?thesis by (simp add: to_int_def sint_uint)
qed

lemma box_mono: "R \<le> R' \<Longrightarrow> C \<le> C' \<Longrightarrow> box R C \<subseteq> box R' C'"
  by (auto simp: box_def)

lemma box_cast: "box (rows g) (cols g) \<subseteq> box (height g) (width g)"
  by (rule box_mono) (rule to_int_le)+

lemma covers_mono: "box R C \<subseteq> box R' C' \<Longrightarrow> covers R' C' g \<Longrightarrow> covers R C g"
  unfolding covers_def by blast

lemma loop_body_frame:
  assumes "loop_body R C s = Inr s'" and "Q s = (r, c) # rest"
    and "in_range (levels s) a b" and "(a, b) \<noteq> (r, c)"
  shows "get_cell (levels s') a b = get_cell (levels s) a b"
proof -
  from assms(1,2) have inr: "in_range (levels s) r c"
    and l: "levels s' = set_cell (levels s) r c (get_cell (levels s) r c + 1)"
    by (auto simp: loop_body_def split: if_splits)
  from get_set_cell [OF inr assms(3)] assms(4) l show ?thesis by auto
qed

lemma while_loop_frame:
  "while_loop R C s = Inr s' \<Longrightarrow> set (Q s) \<subseteq> box R C \<Longrightarrow> in_range (levels s) a b \<Longrightarrow>
   (a, b) \<notin> box R C \<Longrightarrow> get_cell (levels s') a b = get_cell (levels s) a b"
proof (induction R C s rule: while_loop.induct)
  case (1 R C s)
  show ?case
  proof (cases "Q s")
    case Nil
    with "1.prems"(1) show ?thesis by (simp add: while_loop.simps [of R C s])
  next
    case (Cons x rest)
    obtain r c where x: "x = (r, c)" by (cases x)
    note q = Cons [unfolded x]
    from q have ne: "Q s \<noteq> []" by simp
    with "1.prems"(1) obtain s1 where b: "loop_body R C s = Inr s1" and w: "while_loop R C s1 = Inr s'"
      by (auto simp: while_loop.simps [of R C s] split: sum.splits)
    from q "1.prems"(2,4) have "(a, b) \<noteq> (r, c)" by auto
    from loop_body_frame [OF b q "1.prems"(3) this]
    have f: "get_cell (levels s1) a b = get_cell (levels s) a b" .
    from in_range_shape [OF loop_body_shape [OF b], of a b] "1.prems"(3)
    have i: "in_range (levels s1) a b" by simp
    from "1.IH" [OF ne b w loop_body_queue [OF b "1.prems"(2)] i "1.prems"(4)] f
    show ?thesis by simp
  qed
qed

section \<open>The run of the loop on a valid grid\<close>

text \<open>
  One iteration keeps the invariant. On a grid of digits no cell is ever incremented
  past 66, so the 8-bit cells never wrap around and a cell above \<^verbatim>\<open>'9'\<close> stays there.
\<close>

lemma finite_flashed [simp]: "finite (flashed R C g)"
  by (rule finite_subset [of _ "box R C"]) (auto simp: flashed_def)

lemma flashed_in_box: "flashed R C g \<subseteq> box R C"
  by (auto simp: flashed_def)

lemma sources_iff: "(r, c) \<in> sources R C z \<longleftrightarrow> (r, c) \<in> box R C \<and> z \<in> set (neighbours R C r c)"
  by (simp add: sources_def)

lemma finite_sources [simp]: "finite (sources R C z)"
  by (rule finite_subset [of _ "box R C"]) (auto simp: sources_def)

lemma card_sources: "card (sources R C z) \<le> 8"
proof -
  obtain a b where z: "z = (a, b)" by (cases z)
  have "sources R C z \<subseteq> set (neighbours (a + 2) (b + 2) a b)" 
  proof
    fix y assume y: "y \<in> sources R C z"
    obtain r c where rc: "y = (r, c)" by (cases y)
    from y rc z have "(a, b) \<in> set (neighbours R C r c)" by (simp add: sources_iff)
    then have n: "(a, b) \<noteq> (r, c)" "\<bar>a - r\<bar> \<le> 1" "\<bar>b - c\<bar> \<le> 1" and "(a, b) \<in> box R C" 
      by (simp_all add: neighbours_iff)
    moreover from y rc have "(r, c) \<in> box R C" by (simp add: sources_iff)
    ultimately have "(r, c) \<in> set (neighbours (a + 2) (b + 2) a b)"
      unfolding neighbours_iff in_box_iff by auto
    with rc show "y \<in> set (neighbours (a + 2) (b + 2) a b)" by simp
  qed
  then have "card (sources R C z) \<le> card (set (neighbours (a + 2) (b + 2) a b))"
    by (rule card_mono [rotated]) simp
  also have "\<dots> \<le> length (neighbours (a + 2) (b + 2) a b)" by (rule card_length)
  also have "\<dots> \<le> 8" by (rule length_neighbours)
  finally show ?thesis .
qed

lemma unat_inc: "unat v < 255 \<Longrightarrow> unat (v + 1) = Suc (unat v)" for v :: level
  by unat_arith auto

lemma unat_eq_57: "(unat v = 57) = (v = chr9)" for v :: level
  by unat_arith

lemma run_inv_bound:
  assumes "start_ok R C g0" and "run_inv R C g0 s" and "(r, c) \<in> box R C"
  shows "unat (get_cell (levels s) r c) + count_list (Q s) (r, c) \<le> 66"
    and "49 \<le> unat (get_cell (levels s) r c) + count_list (Q s) (r, c)"
proof -
  let ?k = "card (flashed R C (levels s) \<inter> sources R C (r, c))"
  from assms(2,3) have e: "unat (get_cell (levels s) r c) + count_list (Q s) (r, c)
      = unat (get_cell g0 r c) + 1 + ?k"
    by (auto simp: run_inv_def)
  have "?k \<le> card (sources R C (r, c))" by (rule card_mono) simp_all
  with card_sources [of R C "(r, c)"] have k: "?k \<le> 8" by simp
  from assms(1,3) have "48 \<le> unat (get_cell g0 r c) \<and> unat (get_cell g0 r c) \<le> 57"
    by (auto simp: start_ok_def)
  with e k show "unat (get_cell (levels s) r c) + count_list (Q s) (r, c) \<le> 66"
    and "49 \<le> unat (get_cell (levels s) r c) + count_list (Q s) (r, c)" by simp_all
qed

lemma loop_body_run_inv:
  assumes ok: "start_ok R C g0" and inv: "run_inv R C g0 s" and q: "Q s = (r, c) # rest"
  defines "w \<equiv> get_cell (levels s) r c"
  shows "\<exists>s'. loop_body R C s = Inr s' \<and> run_inv R C g0 s' \<and>
     levels s' = set_cell (levels s) r c (w + 1) \<and>
     (if w = chr9
      then flashed R C (levels s') = insert (r, c) (flashed R C (levels s)) \<and>
           (r, c) \<notin> flashed R C (levels s) \<and>
           Q s' = rest @ neighbours R C r c \<and> num_flashes s' = num_flashes s + 1
      else flashed R C (levels s') = flashed R C (levels s) \<and>
           Q s' = rest \<and> num_flashes s' = num_flashes s)"
proof -
  let ?g = "levels s" and ?g1 = "set_cell (levels s) r c (w + 1)"
  let ?F = "flashed R C (levels s)"
  let ?N = "neighbours R C r c"
  from inv q have xb: "(r, c) \<in> box R C" by (auto simp: run_inv_def)
  from inv have shape: "map length ?g = map length g0" by (simp add: run_inv_def)
  from ok have "covers R C g0" by (simp add: start_ok_def)
  with covers_shape [OF shape, of R C] have cov: "covers R C ?g" by simp
  have inr: "in_range ?g a b" if "(a, b) \<in> box R C" for a b
    using cov that by (auto simp: covers_def)
  from run_inv_bound(1) [OF ok inv xb] q have wb: "unat w \<le> 65" by (simp add: w_def)
  then have w1: "unat (w + 1) = Suc (unat w)" by (simp add: unat_inc)
  have get1: "get_cell ?g1 a b = (if (a, b) = (r, c) then w + 1 else get_cell ?g a b)"
    if "(a, b) \<in> box R C" for a b
    using get_set_cell [OF inr [OF xb] inr [OF that]] by auto
  have val: "unat (get_cell ?g a b) + count_list (Q s) (a, b)
      = unat (get_cell g0 a b) + 1 + card (?F \<inter> sources R C (a, b))"
    if "(a, b) \<in> box R C" for a b
    using inv that by (auto simp: run_inv_def)
  have nf: "num_flashes s = of_nat (card ?F)" using inv by (simp add: run_inv_def)
  have cnt0: "count_list (Q s) (a, b) = count_list rest (a, b) + (if (a, b) = (r, c) then 1 else 0)"
    for a b by (auto simp: q)
  have mem1: "(a, b) \<in> flashed R C ?g1 \<longleftrightarrow> (a, b) \<in> (if w = chr9 then insert (r, c) ?F else ?F)"
    for a b
  proof (cases "(a, b) \<in> box R C")
    case False
    with xb show ?thesis by (auto simp: flashed_def)
  next
    case True
    show ?thesis
    proof (cases "(a, b) = (r, c)")
      case True
      with xb w1 unat_eq_57 [of w] show ?thesis
        by (auto simp: flashed_def get1 w_def [symmetric])
    next
      case False
      with \<open>(a, b) \<in> box R C\<close> show ?thesis by (auto simp: flashed_def get1)
    qed
  qed
  have F1: "flashed R C ?g1 = (if w = chr9 then insert (r, c) ?F else ?F)"
    using mem1 by (intro set_eqI) (simp add: split_paired_all)
  have notin: "(r, c) \<notin> ?F" if "w = chr9"
    using that by (simp add: flashed_def w_def [symmetric])
  show ?thesis
  proof (cases "w = chr9")
    case True
    define s' where "s' = \<lparr>levels = ?g1, Q = rest @ ?N, num_flashes = num_flashes s + 1\<rparr>"
    have b: "loop_body R C s = Inr s'"
      using q inr [OF xb] True by (simp add: loop_body_def s'_def w_def)
    have F': "flashed R C (levels s') = insert (r, c) ?F" using F1 True by (simp add: s'_def)
    have crd: "card (insert (r, c) ?F \<inter> sources R C (a, b))
        = card (?F \<inter> sources R C (a, b)) + (if (a, b) \<in> set ?N then 1 else 0)" for a b
    proof (cases "(a, b) \<in> set ?N")
      case True
      then have "(r, c) \<in> sources R C (a, b)" using xb by (simp add: sources_iff)
      then have "insert (r, c) ?F \<inter> sources R C (a, b) = insert (r, c) (?F \<inter> sources R C (a, b))"
        by auto
      moreover have "(r, c) \<notin> ?F \<inter> sources R C (a, b)" using notin [OF \<open>w = chr9\<close>] by simp
      ultimately show ?thesis using True by simp
    next
      case False
      then have "(r, c) \<notin> sources R C (a, b)" by (simp add: sources_iff)
      then have "insert (r, c) ?F \<inter> sources R C (a, b) = ?F \<inter> sources R C (a, b)" by auto
      with False show ?thesis by simp
    qed
    have val': "unat (get_cell (levels s') a b) + count_list (Q s') (a, b)
        = unat (get_cell g0 a b) + 1 + card (flashed R C (levels s') \<inter> sources R C (a, b))"
      if ab: "(a, b) \<in> box R C" for a b
    proof -
      have cnt: "count_list (Q s') (a, b)
          = count_list rest (a, b) + (if (a, b) \<in> set ?N then 1 else 0)"
        by (simp add: s'_def count_list_distinct [OF distinct_neighbours])
      show ?thesis
      proof (cases "(a, b) = (r, c)")
        case True
        then have n: "(a, b) \<notin> set ?N" using not_self_neighbour [of r c R C] by simp
        from True get1 [OF ab] w1 have g: "unat (get_cell ?g1 a b) = Suc (unat (get_cell ?g a b))"
          by (auto simp: w_def)
        from True cnt0 [of a b] have c0: "count_list (Q s) (a, b) = Suc (count_list rest (a, b))"
          by auto
        from val [OF ab] g c0 cnt crd [of a b] n show ?thesis
          by (simp add: F') (simp add: s'_def)
      next
        case False
        from False get1 [OF ab] have g: "get_cell ?g1 a b = get_cell ?g a b" by auto
        from False cnt0 [of a b] have c0: "count_list (Q s) (a, b) = count_list rest (a, b)"
          by auto
        from val [OF ab] g c0 cnt crd [of a b] show ?thesis
          by (simp add: F') (simp add: s'_def)
      qed
    qed
    have "run_inv R C g0 s'"
      unfolding run_inv_def
    proof (intro conjI)
      show "map length (levels s') = map length g0" using shape by (simp add: s'_def)
      show "set (Q s') \<subseteq> box R C"
        using inv q neighbours_in_box [of R C r c] by (auto simp: s'_def run_inv_def)
      show "num_flashes s' = of_nat (card (flashed R C (levels s')))"
        using nf notin [OF True] by (simp add: F') (simp add: s'_def)
      show "\<forall>(a, b) \<in> box R C. unat (get_cell (levels s') a b) + count_list (Q s') (a, b)
          = unat (get_cell g0 a b) + 1 + card (flashed R C (levels s') \<inter> sources R C (a, b))"
        using val' by auto
    qed
    with b F' notin [OF True] True show ?thesis by (auto simp: s'_def)
  next
    case False
    define s' where "s' = \<lparr>levels = ?g1, Q = rest, num_flashes = num_flashes s\<rparr>"
    have b: "loop_body R C s = Inr s'"
      using q inr [OF xb] False by (simp add: loop_body_def s'_def w_def)
    have F': "flashed R C (levels s') = ?F" by (simp add: s'_def F1 False)
    have val': "unat (get_cell (levels s') a b) + count_list (Q s') (a, b)
        = unat (get_cell g0 a b) + 1 + card (flashed R C (levels s') \<inter> sources R C (a, b))"
      if ab: "(a, b) \<in> box R C" for a b
    proof (cases "(a, b) = (r, c)")
      case True
      from True get1 [OF ab] w1 have g: "unat (get_cell ?g1 a b) = Suc (unat (get_cell ?g a b))"
        by (auto simp: w_def)
      from True cnt0 [of a b] have c0: "count_list (Q s) (a, b) = Suc (count_list rest (a, b))"
        by auto
      from val [OF ab] g c0 show ?thesis
        by (simp add: F') (simp add: s'_def)
    next
      case False
      from False get1 [OF ab] have g: "get_cell ?g1 a b = get_cell ?g a b" by auto
      from False cnt0 [of a b] have c0: "count_list (Q s) (a, b) = count_list rest (a, b)"
        by auto
      from val [OF ab] g c0 show ?thesis
        by (simp add: F') (simp add: s'_def)
    qed
    have "run_inv R C g0 s'"
      unfolding run_inv_def
    proof (intro conjI)
      show "map length (levels s') = map length g0" using shape by (simp add: s'_def)
      show "set (Q s') \<subseteq> box R C"
        using inv q by (auto simp: s'_def run_inv_def)
      show "num_flashes s' = of_nat (card (flashed R C (levels s')))"
        using nf by (simp add: F') (simp add: s'_def)
      show "\<forall>(a, b) \<in> box R C. unat (get_cell (levels s') a b) + count_list (Q s') (a, b)
          = unat (get_cell g0 a b) + 1 + card (flashed R C (levels s') \<inter> sources R C (a, b))"
        using val' by auto
    qed
    with b F' False show ?thesis by (auto simp: s'_def)
  qed
qed

lemma valid_grid_start:
  assumes "valid_grid g"
  shows "start_ok (rows g) (cols g) g"
proof -
  let ?R = "height g" and ?C = "width g"
  from assms have ne: "g \<noteq> []" and rect: "\<forall>row \<in> set g. length row = length (g ! 0)"
    and dig: "\<forall>row \<in> set g. \<forall>v \<in> set row. chr0 \<le> v \<and> v \<le> chr9"
    unfolding valid_grid_def rectangular_def by blast+
  have "\<forall>row \<in> set g. length (g ! 0) \<le> length row"
  proof
    fix row assume "row \<in> set g"
    with rect have "length row = length (g ! 0)" by blast
    then show "length (g ! 0) \<le> length row" by linarith
  qed
  then have "covers ?R ?C g" by (simp add: covers_rows [OF ne])
  from covers_mono [OF box_cast this] have cov: "covers (rows g) (cols g) g" .
  have "48 \<le> unat (get_cell g r c) \<and> unat (get_cell g r c) \<le> 57"
    if "(r, c) \<in> box (rows g) (cols g)" for r c
  proof -
    from cov that have "in_range g r c" by (auto simp: covers_def)
    then have r: "nat r < length g" and c: "nat c < length (g ! nat r)"
      by (auto simp: in_range_def)
    from r have "g ! nat r \<in> set g" by simp
    moreover from c have "g ! nat r ! nat c \<in> set (g ! nat r)" by simp
    ultimately have "chr0 \<le> get_cell g r c \<and> get_cell g r c \<le> chr9"
      using dig unfolding get_cell_def by blast
    then show ?thesis by (simp add: word_le_nat_alt)
  qed
  with cov show ?thesis by (auto simp: start_ok_def)
qed

lemma start_not_flashed: "start_ok R C g \<Longrightarrow> flashed R C g = {}"
  by (auto simp: start_ok_def flashed_def)

lemma run_inv_init:
  assumes "start_ok (rows g) (cols g) g"
  shows "run_inv (rows g) (cols g) g (init g)"
  unfolding run_inv_def
  by (auto simp: init_def set_all_coords start_not_flashed [OF assms]
      count_list_distinct [OF distinct_all_coords])

lemma iterate_run_inv:
  "start_ok R C g0 \<Longrightarrow> run_inv R C g0 s \<Longrightarrow>
   \<exists>s'. iterate k R C s = Inr s' \<and> run_inv R C g0 s' \<and>
        flashed R C (levels s) \<subseteq> flashed R C (levels s')"
proof (induction k arbitrary: s)
  case 0
  then show ?case by simp
next
  case (Suc k)
  show ?case
  proof (cases "Q s")
    case Nil
    with Suc.prems show ?thesis by simp
  next
    case (Cons x rest)
    obtain r c where x: "x = (r, c)" by (cases x)
    from loop_body_run_inv [OF Suc.prems Cons [unfolded x]]
    obtain s1 where b: "loop_body R C s = Inr s1" and i1: "run_inv R C g0 s1"
      and f1: "flashed R C (levels s) \<subseteq> flashed R C (levels s1)"
      by (auto split: if_splits)
    from Suc.IH [OF Suc.prems(1) i1] obtain s' where "iterate k R C s1 = Inr s'"
      and "run_inv R C g0 s'" and "flashed R C (levels s1) \<subseteq> flashed R C (levels s')"
      by blast
    with b f1 Cons show ?thesis by auto
  qed
qed

lemma flash_enters_closed:
  assumes inv: "run_inv R C g0 s" and q: "Q s = (r, c) # rest"
    and w: "get_cell (levels s) r c = chr9"
    and cl: "closed R C g0 S" and sub: "flashed R C (levels s) \<subseteq> S"
  shows "(r, c) \<in> S"
proof -
  from inv q have xb: "(r, c) \<in> box R C" by (auto simp: run_inv_def)
  with inv have "unat (get_cell (levels s) r c) + count_list (Q s) (r, c)
      = unat (get_cell g0 r c) + 1 + card (flashed R C (levels s) \<inter> sources R C (r, c))"
    by (auto simp: run_inv_def)
  with w q have "58 \<le> unat (get_cell g0 r c) + 1 + card (flashed R C (levels s) \<inter> sources R C (r, c))"
    by simp
  moreover have "card (flashed R C (levels s) \<inter> sources R C (r, c)) \<le> card (S \<inter> sources R C (r, c))"
    using sub by (intro card_mono) auto
  ultimately have "58 \<le> unat (get_cell g0 r c) + 1 + card (S \<inter> sources R C (r, c))"
    by linarith
  with cl xb show ?thesis by (auto simp: closed_def)
qed

lemma while_loop_run:
  "start_ok R C g0 \<Longrightarrow> run_inv R C g0 s \<Longrightarrow>
   \<exists>s' k. while_loop R C s = Inr s' \<and> iterate k R C s = Inr s' \<and> Q s' = [] \<and>
     run_inv R C g0 s' \<and>
     k + 8 * card (flashed R C (levels s)) \<le> length (Q s) + 8 * card (flashed R C (levels s')) \<and>
     (\<forall>S. closed R C g0 S \<longrightarrow> flashed R C (levels s) \<subseteq> S \<longrightarrow> flashed R C (levels s') \<subseteq> S)"
proof (induction R C s rule: while_loop.induct)
  case (1 R C s)
  show ?case
  proof (cases "Q s")
    case Nil
    with "1.prems" have "while_loop R C s = Inr s \<and> iterate 0 R C s = Inr s"
      by (simp add: while_loop.simps [of R C s])
    with Nil "1.prems" show ?thesis by (intro exI [of _ s] exI [of _ 0]) simp
  next
    case (Cons x rest)
    obtain r c where x: "x = (r, c)" by (cases x)
    note q = Cons [unfolded x]
    from q have ne: "Q s \<noteq> []" by simp
    from loop_body_run_inv [OF "1.prems" q]
    obtain s1 where b: "loop_body R C s = Inr s1" and i1: "run_inv R C g0 s1"
      and f1: "if get_cell (levels s) r c = chr9
        then flashed R C (levels s1) = insert (r, c) (flashed R C (levels s)) \<and>
             (r, c) \<notin> flashed R C (levels s) \<and> Q s1 = rest @ neighbours R C r c
        else flashed R C (levels s1) = flashed R C (levels s) \<and> Q s1 = rest"
      by (auto split: if_splits)
    from "1.IH" [OF ne b "1.prems"(1) i1]
    obtain s' k where w: "while_loop R C s1 = Inr s'" and it: "iterate k R C s1 = Inr s'"
      and e: "Q s' = []" and i': "run_inv R C g0 s'"
      and m: "k + 8 * card (flashed R C (levels s1)) \<le> length (Q s1) + 8 * card (flashed R C (levels s'))"
      and c: "\<forall>S. closed R C g0 S \<longrightarrow> flashed R C (levels s1) \<subseteq> S \<longrightarrow> flashed R C (levels s') \<subseteq> S"
      by blast
    have w': "while_loop R C s = Inr s'" using ne b w by (simp add: while_loop.simps [of R C s])
    have it': "iterate (Suc k) R C s = Inr s'" using ne b it by simp
    have m': "Suc k + 8 * card (flashed R C (levels s)) \<le> length (Q s) + 8 * card (flashed R C (levels s'))"
    proof (cases "get_cell (levels s) r c = chr9")
      case True
      with f1 have "card (flashed R C (levels s1)) = Suc (card (flashed R C (levels s)))"
        and "length (Q s1) = length rest + length (neighbours R C r c)"
        by simp_all
      with m q length_neighbours [of R C r c] show ?thesis by simp
    next
      case False
      with f1 m q show ?thesis by simp
    qed
    have c': "flashed R C (levels s') \<subseteq> S" if cl: "closed R C g0 S" and sub: "flashed R C (levels s) \<subseteq> S" for S
    proof -
      have "flashed R C (levels s1) \<subseteq> S"
      proof (cases "get_cell (levels s) r c = chr9")
        case True
        from flash_enters_closed [OF "1.prems"(2) q True cl sub] f1 True sub show ?thesis by simp
      next
        case False
        with f1 sub show ?thesis by simp
      qed
      with c cl show ?thesis by blast
    qed
    from w' it' e i' m' c' show ?thesis by blast
  qed
qed

lemma sless_digit: "unat v < 128 \<Longrightarrow> (chr9 <s v) = (57 < unat v)" for v :: level
proof -
  assume "unat v < 128"
  then have "int (unat v) < 128" by linarith
  then have hi: "uint v < 2 ^ 7" by simp
  have lo: "- (2 ^ 7) \<le> uint v"
    by (rule order_trans [of _ 0]) simp_all
  have "signed_take_bit 7 (uint v) = uint v"
    using lo hi by (rule signed_take_bit_int_eq_self)
  then have "sint v = uint v"
    by (simp add: sint_uint)
  then have "(chr9 <s v) = (chr9 < v)"
    by (simp add: word_sless_alt word_less_def)
  then show ?thesis
    by (simp add: word_less_nat_alt)
qed

lemma sweep_result:
  "\<forall>(r, c) \<in> set cs. in_range g r c \<Longrightarrow>
   \<exists>g'. sweep cs g = Inr g' \<and> map length g' = map length g \<and>
     (\<forall>a b. in_range g a b \<longrightarrow>
        get_cell g' a b = (if (a, b) \<in> set cs \<and> chr9 <s get_cell g a b then chr0 else get_cell g a b))"
proof (induction cs arbitrary: g)
  case Nil
  then show ?case by simp
next
  case (Cons x cs)
  obtain r c where x: "x = (r, c)" by (cases x)
  from Cons.prems x have inr: "in_range g r c" and rest: "\<forall>(r, c) \<in> set cs. in_range g r c"
    by auto
  let ?v = "get_cell g r c"
  show ?case
  proof (cases "chr9 <s ?v")
    case True
    let ?g2 = "set_cell g r c chr0"
    from rest have "\<forall>(r, c) \<in> set cs. in_range ?g2 r c" by simp
    from Cons.IH [OF this] obtain g' where sw: "sweep cs ?g2 = Inr g'"
      and sh: "map length g' = map length ?g2"
      and ce: "\<And>a b. in_range ?g2 a b \<Longrightarrow>
        get_cell g' a b = (if (a, b) \<in> set cs \<and> chr9 <s get_cell ?g2 a b then chr0 else get_cell ?g2 a b)"
      by blast
    have "sweep (x # cs) g = Inr g'"
      using True inr sw by (simp add: x read_cell_in_range)
    moreover have "map length g' = map length g" using sh by simp
    moreover have "get_cell g' a b = (if (a, b) \<in> set (x # cs) \<and> chr9 <s get_cell g a b then chr0 else get_cell g a b)"
      if ab: "in_range g a b" for a b
    proof (cases "(a, b) = (r, c)")
      case True
      with ce [of a b] ab get_set_cell [OF inr ab, of chr0] \<open>chr9 <s ?v\<close> show ?thesis
        by (auto simp: x word_sless_alt)
    next
      case False
      with ce [of a b] ab get_set_cell [OF inr ab, of chr0] show ?thesis
        by (auto simp: x)
    qed
    ultimately show ?thesis by blast
  next
    case False
    from Cons.IH [OF rest] obtain g' where sw: "sweep cs g = Inr g'"
      and sh: "map length g' = map length g"
      and ce: "\<And>a b. in_range g a b \<Longrightarrow>
        get_cell g' a b = (if (a, b) \<in> set cs \<and> chr9 <s get_cell g a b then chr0 else get_cell g a b)"
      by blast
    have "sweep (x # cs) g = Inr g'"
      using False inr sw by (simp add: x read_cell_in_range)
    moreover have "get_cell g' a b = (if (a, b) \<in> set (x # cs) \<and> chr9 <s get_cell g a b then chr0 else get_cell g a b)"
      if ab: "in_range g a b" for a b
      using ce [OF ab] False by (auto simp: x)
    ultimately show ?thesis using sh by blast
  qed
qed

lemma step_valid:
  assumes v: "valid_grid g"
  shows "\<exists>s g' k. iterate k (rows g) (cols g) (init g) = Inr s \<and> Q s = [] \<and>
     run_inv (rows g) (cols g) g s \<and>
     k \<le> nat (rows g) * nat (cols g) + 8 * card (flashed (rows g) (cols g) (levels s)) \<and>
     (\<forall>S. closed (rows g) (cols g) g S \<longrightarrow> flashed (rows g) (cols g) (levels s) \<subseteq> S) \<and>
     step g = Inr (g', sint (num_flashes s)) \<and> map length g' = map length g \<and>
     (\<forall>(r, c) \<in> box (rows g) (cols g).
        get_cell g' r c = (if 58 \<le> unat (get_cell (levels s) r c) then chr0 else get_cell (levels s) r c)) \<and>
     (\<forall>a b. in_range g a b \<longrightarrow> (a, b) \<notin> box (rows g) (cols g) \<longrightarrow>
        get_cell g' a b = get_cell g a b)"
proof -
  let ?R = "rows g" and ?C = "cols g"
  note ok = valid_grid_start [OF v]
  note i0 = run_inv_init [OF ok]
  from v have ne: "g \<noteq> []" by (simp add: valid_grid_def)
  from while_loop_run [OF ok i0]
  obtain s k where w: "while_loop ?R ?C (init g) = Inr s" and it: "iterate k ?R ?C (init g) = Inr s"
    and e: "Q s = []" and i: "run_inv ?R ?C g s"
    and m: "k + 8 * card (flashed ?R ?C (levels (init g)))
        \<le> length (Q (init g)) + 8 * card (flashed ?R ?C (levels s))"
    and c: "\<forall>S. closed ?R ?C g S \<longrightarrow> flashed ?R ?C (levels (init g)) \<subseteq> S \<longrightarrow> flashed ?R ?C (levels s) \<subseteq> S"
    by blast
  have l0: "levels (init g) = g" and q0: "Q (init g) = all_coords ?R ?C"
    by (simp_all add: init_def)
  from m have m': "k \<le> nat ?R * nat ?C + 8 * card (flashed ?R ?C (levels s))"
    unfolding l0 q0 start_not_flashed [OF ok] length_all_coords by simp
  have c': "\<forall>S. closed ?R ?C g S \<longrightarrow> flashed ?R ?C (levels s) \<subseteq> S"
    using c unfolding l0 start_not_flashed [OF ok] by simp
  from i have shape: "map length (levels s) = map length g" by (simp add: run_inv_def)
  from ok have "covers ?R ?C g" by (simp add: start_ok_def)
  with covers_shape [OF shape, of ?R ?C] have cov: "covers ?R ?C (levels s)" by simp
  then have "\<forall>(r, c) \<in> set (all_coords ?R ?C). in_range (levels s) r c"
    by (simp add: covers_def set_all_coords)
  from sweep_result [OF this] obtain g' where sw: "sweep (all_coords ?R ?C) (levels s) = Inr g'"
    and sh: "map length g' = map length (levels s)"
    and ce: "\<And>a b. in_range (levels s) a b \<Longrightarrow>
        get_cell g' a b = (if (a, b) \<in> set (all_coords ?R ?C) \<and> chr9 <s get_cell (levels s) a b
          then chr0 else get_cell (levels s) a b)"
    by blast
  have st: "step g = Inr (g', sint (num_flashes s))"
    using ne w sw by (simp add: step_def Let_def)
  have "get_cell g' r c = (if 58 \<le> unat (get_cell (levels s) r c) then chr0 else get_cell (levels s) r c)"
    if rc: "(r, c) \<in> box ?R ?C" for r c
  proof -
    from cov rc have inr: "in_range (levels s) r c" by (auto simp: covers_def)
    from run_inv_bound(1) [OF ok i rc] have "unat (get_cell (levels s) r c) < 128" by simp
    from sless_digit [OF this] ce [OF inr] rc show ?thesis
      by (auto simp: set_all_coords)
  qed
  then have cells: "\<forall>(r, c) \<in> box ?R ?C.
        get_cell g' r c = (if 58 \<le> unat (get_cell (levels s) r c) then chr0 else get_cell (levels s) r c)"
    by auto
  have "get_cell g' a b = get_cell g a b" if ab: "in_range g a b" and out: "(a, b) \<notin> box ?R ?C" for a b
  proof -
    from in_range_shape [OF shape, of a b] ab have inr: "in_range (levels s) a b" by simp
    have q: "set (Q (init g)) \<subseteq> box ?R ?C" by (simp add: q0 set_all_coords)
    from ab l0 have "in_range (levels (init g)) a b" by simp
    from while_loop_frame [OF w q this out] l0
    have "get_cell (levels s) a b = get_cell g a b" by simp
    with ce [OF inr] out show ?thesis by (simp add: set_all_coords)
  qed
  then have frame: "\<forall>a b. in_range g a b \<longrightarrow> (a, b) \<notin> box ?R ?C \<longrightarrow> get_cell g' a b = get_cell g a b"
    by blast
  from it e i m' c' st sh shape cells frame show ?thesis
    by (intro exI [of _ s] exI [of _ g'] exI [of _ k]) simp
qed

section \<open>Counting iterations and flashes\<close>

text \<open>
  The counter is the number of iterations in which the cell taken from the queue
  flashes, and a cell that has flashed does not flash in a later iteration.
\<close>

lemma iterate_empty: "Q s = [] \<Longrightarrow> iterate k R C s = Inr s"
  by (cases k) simp_all

lemma iterate_add:
  "iterate (a + b) R C s = (case iterate a R C s of Inl e \<Rightarrow> Inl e | Inr t \<Rightarrow> iterate b R C t)"
proof (induction a arbitrary: s)
  case 0
  then show ?case by simp
next
  case (Suc a)
  show ?case
  proof (cases "Q s = []")
    case True
    then show ?thesis by (simp add: iterate_empty)
  next
    case False
    then show ?thesis by (cases "loop_body R C s") (simp_all add: Suc.IH)
  qed
qed

lemma flash_at_Suc:
  "Q s \<noteq> [] \<Longrightarrow> loop_body R C s = Inr s1 \<Longrightarrow> flash_at R C s (Suc i) = flash_at R C s1 i"
  by (simp add: flash_at_def)

lemma flash_at_empty: "Q s = [] \<Longrightarrow> flash_at R C s i = None"
  by (simp add: flash_at_def iterate_empty)

lemma card_shift:
  "card {i. i < Suc k \<and> P i} = (if P 0 then 1 else 0) + card {i. i < k \<and> P (Suc i)}"
proof -
  have "{i. i < Suc k \<and> P i} = (if P 0 then {0} else {}) \<union> Suc ` {i. i < k \<and> P (Suc i)}"
  proof (intro set_eqI iffI)
    fix i assume "i \<in> {i. i < Suc k \<and> P i}"
    then show "i \<in> (if P 0 then {0} else {}) \<union> Suc ` {i. i < k \<and> P (Suc i)}"
      by (cases i) auto
  next
    fix i assume "i \<in> (if P 0 then {0} else {}) \<union> Suc ` {i. i < k \<and> P (Suc i)}"
    then show "i \<in> {i. i < Suc k \<and> P i}" by (auto split: if_splits)
  qed
  moreover have "card ((if P 0 then {0} else {}) \<union> Suc ` {i. i < k \<and> P (Suc i)})
      = card (if P 0 then {0::nat} else {}) + card (Suc ` {i. i < k \<and> P (Suc i)})"
    by (rule card_Un_disjoint) auto
  moreover have "card (Suc ` {i. i < k \<and> P (Suc i)}) = card {i. i < k \<and> P (Suc i)}"
    by (rule card_image) simp
  ultimately show ?thesis by simp
qed

lemma flashes_counted:
  "start_ok R C g0 \<Longrightarrow> run_inv R C g0 s \<Longrightarrow> iterate k R C s = Inr s' \<Longrightarrow>
   card (flashed R C (levels s'))
     = card (flashed R C (levels s)) + card {i. i < k \<and> flash_at R C s i \<noteq> None}"
proof (induction k arbitrary: s)
  case 0
  then show ?case by simp
next
  case (Suc k)
  show ?case
  proof (cases "Q s")
    case Nil
    with Suc.prems show ?thesis by (simp add: flash_at_empty)
  next
    case (Cons x rest)
    obtain r c where x: "x = (r, c)" by (cases x)
    note q = Cons [unfolded x]
    from q have ne: "Q s \<noteq> []" by simp
    from loop_body_run_inv [OF Suc.prems(1,2) q]
    obtain s1 where b: "loop_body R C s = Inr s1" and i1: "run_inv R C g0 s1"
      and f1: "card (flashed R C (levels s1))
        = card (flashed R C (levels s)) + (if get_cell (levels s) r c = chr9 then 1 else 0)"
      by (auto split: if_splits)
    from ne b Suc.prems(3) have it: "iterate k R C s1 = Inr s'" by simp
    from b q have inr: "in_range (levels s) r c"
      by (auto simp: loop_body_def split: if_splits)
    have f0: "(flash_at R C s 0 \<noteq> None) = (get_cell (levels s) r c = chr9)"
      using q inr by (simp add: flash_at_def)
    have "card {i. i < Suc k \<and> flash_at R C s i \<noteq> None}
        = (if get_cell (levels s) r c = chr9 then 1 else 0) + card {i. i < k \<and> flash_at R C s1 i \<noteq> None}"
      unfolding card_shift [of k "\<lambda>i. flash_at R C s i \<noteq> None"] f0 flash_at_Suc [OF ne b] ..
    with Suc.IH [OF Suc.prems(1) i1 it] f1 show ?thesis by simp
  qed
qed

lemma flash_at_after_exit:
  assumes "iterate k R C s = Inr s'" and "Q s' = []" and "k \<le> i"
  shows "flash_at R C s i = None"
proof -
  from assms(3) obtain d where "i = k + d" by (auto simp: le_iff_add)
  with assms(1,2) have "iterate i R C s = Inr s'" by (simp add: iterate_add iterate_empty)
  with assms(2) show ?thesis by (simp add: flash_at_def)
qed

lemma flashes_total:
  assumes "start_ok R C g0" and "run_inv R C g0 s" and "iterate k R C s = Inr s'" and "Q s' = []"
  shows "card (flashed R C (levels s'))
     = card (flashed R C (levels s)) + card {i. flash_at R C s i \<noteq> None}"
proof -
  have "i < k" if "flash_at R C s i \<noteq> None" for i
  proof (rule ccontr)
    assume "\<not> i < k"
    then have "k \<le> i" by simp
    from flash_at_after_exit [OF assms(3,4) this] that show False by simp
  qed
  then have "{i. flash_at R C s i \<noteq> None} = {i. i < k \<and> flash_at R C s i \<noteq> None}"
    by blast
  with flashes_counted [OF assms(1,2,3)] show ?thesis by simp
qed

lemma flash_atD:
  assumes "flash_at R C s i = Some (r, c)"
  shows "\<exists>si rest. iterate i R C s = Inr si \<and> Q si = (r, c) # rest \<and> get_cell (levels si) r c = chr9"
  using assms unfolding flash_at_def
  by (auto split: sum.splits list.splits if_splits)

lemma no_second_flash:
  assumes v: "valid_grid g" and lt: "i < j"
    and fi: "flash_at (rows g) (cols g) (init g) i = Some x"
    and fj: "flash_at (rows g) (cols g) (init g) j = Some x"
  shows False
proof -
  let ?R = "rows g" and ?C = "cols g"
  obtain r c where x: "x = (r, c)" by (cases x)
  note ok = valid_grid_start [OF v]
  from flash_atD [OF fi [unfolded x]]
  obtain si rest where iti: "iterate i ?R ?C (init g) = Inr si" and q: "Q si = (r, c) # rest"
    and w: "get_cell (levels si) r c = chr9" by blast
  from iterate_run_inv [OF ok run_inv_init [OF ok], of i] iti
  have inv: "run_inv ?R ?C g si" by auto
  from loop_body_run_inv [OF ok inv q] w
  obtain s1 where b: "loop_body ?R ?C si = Inr s1" and inv1: "run_inv ?R ?C g s1"
    and f1: "(r, c) \<in> flashed ?R ?C (levels s1)"
    by auto
  from lt obtain d where j: "j = i + Suc d" by (metis less_iff_Suc_add add_Suc_right)
  from iterate_run_inv [OF ok inv1, of d]
  obtain sj where itd: "iterate d ?R ?C s1 = Inr sj"
    and sub: "flashed ?R ?C (levels s1) \<subseteq> flashed ?R ?C (levels sj)" by blast
  have itj: "iterate j ?R ?C (init g) = Inr sj"
    unfolding j iterate_add using iti q b itd by simp
  from f1 sub have "58 \<le> unat (get_cell (levels sj) r c)" by (auto simp: flashed_def)
  then have "get_cell (levels sj) r c \<noteq> chr9" by auto
  moreover from flash_atD [OF fj [unfolded x]] itj have "get_cell (levels sj) r c = chr9" by auto
  ultimately show False by simp
qed

section \<open>What a call on a valid grid returns\<close>

text \<open>
  The call returns the number of cells that flashed, as an \<^verbatim>\<open>int\<close>; these cells end
  at \<^verbatim>\<open>'0'\<close>, every other cell inside \<^verbatim>\<open>[0, R) x [0, C)\<close> ends at its starting value,
  plus one, plus the number of its sources that flashed, and a cell outside is not
  touched. The cells that flashed are in every closed set.
\<close>

lemma step_valid_returns: "valid_grid g \<Longrightarrow> \<exists>g' n. step g = Inr (g', n)"
  using step_valid [of g] by blast

lemma box_nth:
  "i < length g \<Longrightarrow> j < length (g ! 0) \<Longrightarrow> (int i, int j) \<in> box (height g) (width g)"
  by (simp add: in_box_iff)

lemma get_cell_nth: "get_cell g (int i) (int j) = g ! i ! j"
  by (simp add: get_cell_def)

lemma step_valid_result:
  assumes "valid_grid g"
  shows "\<exists>F g' k s.
     iterate k (rows g) (cols g) (init g) = Inr s \<and> Q s = [] \<and>
     k \<le> nat (rows g) * nat (cols g) + 8 * card F \<and>
     card F = card {i. flash_at (rows g) (cols g) (init g) i \<noteq> None} \<and>
     step g = Inr (g', to_int (card F)) \<and> F \<subseteq> box (rows g) (cols g) \<and>
     map length g' = map length g \<and>
     (\<forall>S. closed (rows g) (cols g) g S \<longrightarrow> F \<subseteq> S) \<and>
     (\<forall>(r, c) \<in> box (rows g) (cols g).
        ((r, c) \<in> F \<longleftrightarrow>
           58 \<le> unat (get_cell g r c) + 1 + card (F \<inter> sources (rows g) (cols g) (r, c))) \<and>
        unat (get_cell g' r c) =
          (if (r, c) \<in> F then 48
           else unat (get_cell g r c) + 1 + card (F \<inter> sources (rows g) (cols g) (r, c)))) \<and>
     (\<forall>a b. in_range g a b \<longrightarrow> (a, b) \<notin> box (rows g) (cols g) \<longrightarrow>
        get_cell g' a b = get_cell g a b)"
proof -
  let ?R = "rows g" and ?C = "cols g"
  note ok = valid_grid_start [OF assms]
  from step_valid [OF assms]
  obtain s g' k where it: "iterate k ?R ?C (init g) = Inr s" and e: "Q s = []"
    and i: "run_inv ?R ?C g s"
    and m: "k \<le> nat ?R * nat ?C + 8 * card (flashed ?R ?C (levels s))"
    and c: "\<forall>S. closed ?R ?C g S \<longrightarrow> flashed ?R ?C (levels s) \<subseteq> S"
    and st: "step g = Inr (g', sint (num_flashes s))" and sh: "map length g' = map length g"
    and ce: "\<forall>(r, c) \<in> box ?R ?C.
        get_cell g' r c = (if 58 \<le> unat (get_cell (levels s) r c) then chr0 else get_cell (levels s) r c)"
    and frame: "\<forall>a b. in_range g a b \<longrightarrow> (a, b) \<notin> box ?R ?C \<longrightarrow> get_cell g' a b = get_cell g a b"
    by blast
  let ?F = "flashed ?R ?C (levels s)"
  from i have "num_flashes s = of_nat (card ?F)" by (simp add: run_inv_def)
  with st have st': "step g = Inr (g', to_int (card ?F))" by (simp add: to_int_def)
  from flashes_total [OF ok run_inv_init [OF ok] it e]
  have ev: "card ?F = card {i. flash_at ?R ?C (init g) i \<noteq> None}"
    by (simp add: init_def start_not_flashed [OF ok])
  have cell: "((r, c) \<in> ?F \<longleftrightarrow> 58 \<le> unat (get_cell g r c) + 1 + card (?F \<inter> sources ?R ?C (r, c))) \<and>
        unat (get_cell g' r c) =
          (if (r, c) \<in> ?F then 48 else unat (get_cell g r c) + 1 + card (?F \<inter> sources ?R ?C (r, c)))"
    if rc: "(r, c) \<in> box ?R ?C" for r c
  proof -
    from i rc e have v: "unat (get_cell (levels s) r c)
        = unat (get_cell g r c) + 1 + card (?F \<inter> sources ?R ?C (r, c))"
      by (auto simp: run_inv_def)
    from rc have f: "(r, c) \<in> ?F \<longleftrightarrow> 58 \<le> unat (get_cell (levels s) r c)"
      by (simp add: flashed_def)
    from ce rc have "get_cell g' r c
        = (if 58 \<le> unat (get_cell (levels s) r c) then chr0 else get_cell (levels s) r c)"
      by auto
    with f v show ?thesis by auto
  qed
  then have "\<forall>(r, c) \<in> box ?R ?C.
        ((r, c) \<in> ?F \<longleftrightarrow> 58 \<le> unat (get_cell g r c) + 1 + card (?F \<inter> sources ?R ?C (r, c))) \<and>
        unat (get_cell g' r c) =
          (if (r, c) \<in> ?F then 48 else unat (get_cell g r c) + 1 + card (?F \<inter> sources ?R ?C (r, c)))"
    by blast
  with it e m ev st' sh c frame flashed_in_box [of ?R ?C "levels s"] show ?thesis
    by (intro exI [of _ ?F] exI [of _ g'] exI [of _ k] exI [of _ s]) simp
qed

lemma shape_nth:
  assumes "map length g' = map length g"
  shows "length g' = length g" and "i < length g \<Longrightarrow> length (g' ! i) = length (g ! i)"
proof -
  show l: "length g' = length g" using assms by (rule map_eq_imp_length_eq)
  show "length (g' ! i) = length (g ! i)" if "i < length g"
    using nth_map [of i g' length] nth_map [of i g length] that l assms by simp
qed

lemma valid_gridI:
  assumes "g \<noteq> []"
    and "\<And>i. i < length g \<Longrightarrow> length (g ! i) = length (g ! 0)"
    and "\<And>i j. i < length g \<Longrightarrow> j < length (g ! 0) \<Longrightarrow> 48 \<le> unat (g ! i ! j) \<and> unat (g ! i ! j) \<le> 57"
  shows "valid_grid g"
  unfolding valid_grid_def rectangular_def
proof (intro conjI ballI)
  show "g \<noteq> []" by fact
next
  fix row assume "row \<in> set g"
  then obtain i where "i < length g" "row = g ! i" by (auto simp: in_set_conv_nth)
  with assms(2) show "length row = length (g ! 0)" by simp
next
  fix row v assume "row \<in> set g" and "v \<in> set row"
  then obtain i j where i: "i < length g" "row = g ! i" and j: "j < length row" "v = row ! j"
    by (auto simp: in_set_conv_nth)
  with assms(2) [of i] have "j < length (g ! 0)" by simp
  from assms(3) [OF i(1) this] i j show "chr0 \<le> v" and "v \<le> chr9"
    by (simp_all add: word_le_nat_alt)
qed

lemma valid_grid_nth:
  assumes "valid_grid g"
  shows "g \<noteq> []" and "i < length g \<Longrightarrow> length (g ! i) = length (g ! 0)"
    and "(r, c) \<in> box (height g) (width g) \<Longrightarrow> in_range g r c"
    and "(r, c) \<in> box (height g) (width g) \<Longrightarrow>
      48 \<le> unat (get_cell g r c) \<and> unat (get_cell g r c) \<le> 57"
    and "(r, c) \<in> box (height g) (width g) \<Longrightarrow>
      get_cell g r c \<in> set (g ! nat r) \<and> g ! nat r \<in> set g"
proof -
  show ne: "g \<noteq> []" using assms by (simp add: valid_grid_def)
  show len: "length (g ! i) = length (g ! 0)" if "i < length g" for i
  proof -
    from that have "g ! i \<in> set g" by simp
    with assms show ?thesis unfolding valid_grid_def rectangular_def by blast
  qed
  show inr: "in_range g r c" if "(r, c) \<in> box (height g) (width g)" for r c
  proof -
    from that have "0 \<le> r" "nat r < length g" "0 \<le> c" "c < width g"
      by (auto simp: in_box_iff)
    with len [of "nat r"] show ?thesis by (simp add: in_range_def)
  qed
  show mem: "get_cell g r c \<in> set (g ! nat r) \<and> g ! nat r \<in> set g"
    if "(r, c) \<in> box (height g) (width g)" for r c
  proof -
    from inr [OF that] have "nat r < length g" and "nat c < length (g ! nat r)"
      by (auto simp: in_range_def)
    then show ?thesis by (simp add: get_cell_def)
  qed
  show "48 \<le> unat (get_cell g r c) \<and> unat (get_cell g r c) \<le> 57"
    if "(r, c) \<in> box (height g) (width g)" for r c
  proof -
    from assms mem [OF that] have "chr0 \<le> get_cell g r c \<and> get_cell g r c \<le> chr9"
      unfolding valid_grid_def by blast
    then show ?thesis by (simp add: word_le_nat_alt)
  qed
qed

lemma sizes_fit:
  "length g < 2 ^ 31 \<Longrightarrow> rows g = height g"
  "length (g ! 0) < 2 ^ 31 \<Longrightarrow> cols g = width g"
  by (simp_all add: to_int_fits)

lemma flash_count_fits:
  assumes "F \<subseteq> box R C" and "R \<le> int h" and "C \<le> int w" and "h * w < 2 ^ 31"
  shows "to_int (card F) = int (card F)"
proof -
  have "card F \<le> card (box R C)" using assms(1) by (intro card_mono) simp_all
  also have "\<dots> = nat R * nat C" by (rule card_box)
  also have "\<dots> \<le> h * w" using assms(2,3) by (intro mult_le_mono) linarith+
  finally have "card F < 2 ^ 31" using assms(4) by linarith
  then show ?thesis by (rule to_int_fits)
qed

lemma small_box:
  assumes "g \<noteq> []" and "length g * length (g ! 0) < 2 ^ 31"
  shows "box (rows g) (cols g) = box (height g) (width g)"
proof (cases "length (g ! 0) = 0")
  case True
  then show ?thesis by (simp add: box_def to_int_def)
next
  case False
  from assms(1) have "0 < length g" by simp
  with False assms(2) have "length g < 2 ^ 31" and "length (g ! 0) < 2 ^ 31"
    by (metis (no_types, lifting) le_less_trans less_one linorder_not_less mult.commute
        mult_le_mono1 nat_mult_1 not_less_eq_eq Suc_lessI One_nat_def)+
  then show ?thesis by (simp add: sizes_fit)
qed

lemma example_valid: "valid_grid [[chr9, chr0], [56, 56]]"
  by (simp add: valid_grid_def rectangular_def)

lemma example_sizes: "rows [[chr9, chr0], [56, 56]] = 2" "cols [[chr9, chr0], [56, 56]] = 2"
  by (simp_all add: to_int_def)

lemma example_step: "step [[chr9, chr0], [56, 56]] = Inr ([[chr0, 52], [chr0, chr0]], 3)"
  by code_simp

lemma all_nines_flash:
  assumes v: "valid_grid g"
    and nines: "\<And>r c. (r, c) \<in> box (rows g) (cols g) \<Longrightarrow> get_cell g r c = chr9"
  shows "\<exists>g'. step g = Inr (g', to_int (nat (rows g) * nat (cols g))) \<and>
     card {i. flash_at (rows g) (cols g) (init g) i \<noteq> None} = nat (rows g) * nat (cols g)"
proof -
  let ?R = "rows g" and ?C = "cols g"
  from step_valid_result [OF v]
  obtain F g' where ev: "card F = card {i. flash_at ?R ?C (init g) i \<noteq> None}"
    and st: "step g = Inr (g', to_int (card F))" and sub: "F \<subseteq> box ?R ?C"
    and mem: "\<And>r c. (r, c) \<in> box ?R ?C \<Longrightarrow>
        ((r, c) \<in> F \<longleftrightarrow> 58 \<le> unat (get_cell g r c) + 1 + card (F \<inter> sources ?R ?C (r, c)))"
    by blast
  have "(r, c) \<in> F" if "(r, c) \<in> box ?R ?C" for r c
    using mem [OF that] nines [OF that] by simp
  with sub have "F = box ?R ?C" by auto
  then have "card F = nat ?R * nat ?C" by (simp add: card_box)
  with st ev show ?thesis by auto
qed


section \<open>The claims of the specification\<close>

text \<open>
  Claim C1, as the code has it. On every non-empty rectangular grid of digits,
  \<^verbatim>\<open>step\<close> returns and leaves a non-empty rectangular grid of digits: no cell stays
  above \<^verbatim>\<open>'9'\<close>. The value returned is the flash count of the step (the number of
  iterations of the loop in which the cell taken from the queue flashes) cast to a 32-bit
  \<^verbatim>\<open>int\<close>. On a grid of fewer than \<open>2 ^ 31\<close> cells this is the flash count itself, and
  also the number of cells left at \<^verbatim>\<open>'0'\<close>.
\<close>

theorem step_keeps_digits:
  assumes "valid_grid g"
  shows "\<exists>g' n. step g = Inr (g', n) \<and> valid_grid g' \<and>
      n = to_int (card {i. flash_at (rows g) (cols g) (init g) i \<noteq> None}) \<and>
      (length g * length (g ! 0) < 2 ^ 31 \<longrightarrow>
         n = int (card {i. flash_at (rows g) (cols g) (init g) i \<noteq> None}) \<and>
         n = int (card {(r, c). (r, c) \<in> box (height g) (width g) \<and> get_cell g' r c = chr0}))"
proof -
  let ?R = "rows g" and ?C = "cols g"
  let ?E = "{i. flash_at ?R ?C (init g) i \<noteq> None}"
  from step_valid_result [OF assms]
  obtain F g' where ev: "card F = card ?E"
    and st: "step g = Inr (g', to_int (card F))" and sub: "F \<subseteq> box ?R ?C"
    and sh: "map length g' = map length g"
    and cell: "\<And>r c. (r, c) \<in> box ?R ?C \<Longrightarrow>
        unat (get_cell g' r c) =
          (if (r, c) \<in> F then 48 else unat (get_cell g r c) + 1 + card (F \<inter> sources ?R ?C (r, c)))"
    and mem: "\<And>r c. (r, c) \<in> box ?R ?C \<Longrightarrow>
        ((r, c) \<in> F \<longleftrightarrow> 58 \<le> unat (get_cell g r c) + 1 + card (F \<inter> sources ?R ?C (r, c)))"
    and frame: "\<And>a b. in_range g a b \<Longrightarrow> (a, b) \<notin> box ?R ?C \<Longrightarrow> get_cell g' a b = get_cell g a b"
    by blast
  note g = valid_grid_nth [OF assms]
  note l = shape_nth [OF sh]
  have inner: "(r, c) \<in> box (height g) (width g)" if "(r, c) \<in> box ?R ?C" for r c
    using box_cast [of g] that by blast
  have rng: "48 \<le> unat (get_cell g' r c) \<and> unat (get_cell g' r c) \<le> 57"
    if rc: "(r, c) \<in> box (height g) (width g)" for r c
  proof (cases "(r, c) \<in> box ?R ?C")
    case True
    from cell [OF True] mem [OF True] g(4) [OF rc] show ?thesis
      by (auto split: if_splits)
  next
    case False
    from frame [OF g(3) [OF rc] False] g(4) [OF rc] show ?thesis by simp
  qed
  have zero: "get_cell g' r c = chr0 \<longleftrightarrow> (r, c) \<in> F" if rc: "(r, c) \<in> box ?R ?C" for r c
  proof -
    have "get_cell g' r c = chr0 \<longleftrightarrow> unat (get_cell g' r c) = 48"
      by (simp add: word_unat_eq_iff)
    with cell [OF rc] g(4) [OF inner [OF rc]] show ?thesis
      by (auto split: if_splits)
  qed
  have "valid_grid g'"
  proof (rule valid_gridI)
    show "g' \<noteq> []" using g(1) l(1) by auto
    show "length (g' ! i) = length (g' ! 0)" if "i < length g'" for i
      using that g(1) g(2) [of i] g(2) [of 0] l(1) l(2) [of i] l(2) [of 0] by simp
    show "48 \<le> unat (g' ! i ! j) \<and> unat (g' ! i ! j) \<le> 57"
      if "i < length g'" and "j < length (g' ! 0)" for i j
    proof -
      from that g(1) l(1) l(2) [of 0] have "(int i, int j) \<in> box (height g) (width g)"
        by (simp add: in_box_iff)
      from rng [OF this] show ?thesis by (simp add: get_cell_nth)
    qed
  qed
  moreover have "to_int (card F) = int (card F) \<and>
      {(r, c). (r, c) \<in> box (height g) (width g) \<and> get_cell g' r c = chr0} = F"
    if small: "length g * length (g ! 0) < 2 ^ 31"
  proof
    show "to_int (card F) = int (card F)"
      using sub to_int_le [of "length g"] to_int_le [of "length (g ! 0)"] small
      by (rule flash_count_fits)
    from small_box [OF g(1) small] zero sub
    show "{(r, c). (r, c) \<in> box (height g) (width g) \<and> get_cell g' r c = chr0} = F"
      by auto
  qed
  ultimately show ?thesis using st ev by auto
qed

theorem step_keeps_digits_witness:
  "valid_grid [[chr9, chr0], [56, 56]] \<and>
   step [[chr9, chr0], [56, 56]] = Inr ([[chr0, 52], [chr0, chr0]], 3) \<and>
   valid_grid [[chr0, 52], [chr0, chr0]] \<and>
   int (card {i. flash_at 2 2 (init [[chr9, chr0], [56, 56]]) i \<noteq> None}) = 3 \<and>
   int (card {(r, c). (r, c) \<in> box 2 2 \<and> get_cell [[chr0, 52], [chr0, chr0]] r c = chr0}) = 3"
  using step_keeps_digits [OF example_valid, unfolded example_sizes] example_valid
  by (simp add: example_step)

text \<open>
  The claim as the specification states it has the value returned be the flash count on
  every valid grid. On two rows of \<open>2 ^ 30\<close> cells at \<^verbatim>\<open>'9'\<close> every cell flashes:
  the flash count is \<open>2 ^ 31\<close>, which no \<^verbatim>\<open>int\<close> holds; the counter wraps at the
  last increment, and the call returns \<open>- 2 ^ 31\<close>.
\<close>

theorem flash_count_exceeds_int:
  "valid_grid [replicate (2 ^ 30) chr9, replicate (2 ^ 30) chr9] \<and>
   card {i. flash_at 2 (2 ^ 30) (init [replicate (2 ^ 30) chr9, replicate (2 ^ 30) chr9]) i \<noteq> None}
     = 2 ^ 31 \<and>
   (\<exists>g'. step [replicate (2 ^ 30) chr9, replicate (2 ^ 30) chr9] = Inr (g', - (2 ^ 31)))"
proof -
  define n :: nat where "n = 2 ^ 30"
  define G :: grid where "G = [replicate n chr9, replicate n chr9]"
  have n: "n < 2 ^ 31" and n0: "0 < n" by (simp_all add: n_def)
  have v: "valid_grid G"
    by (simp add: G_def valid_grid_def rectangular_def)
  have R: "rows G = 2" by (simp add: G_def to_int_def)
  have C: "cols G = int n" using n by (simp add: G_def to_int_fits)
  have nines: "get_cell G r c = chr9" if "(r, c) \<in> box (rows G) (cols G)" for r c
  proof -
    from that box_cast [of G] have "(r, c) \<in> box (height G) (width G)" by blast
    from valid_grid_nth(5) [OF v this] have "get_cell G r c \<in> set (G ! nat r)" and "G ! nat r \<in> set G"
      by simp_all
    then show ?thesis by (auto simp: G_def split: if_splits)
  qed
  from all_nines_flash [OF v nines]
  obtain g' where st: "step G = Inr (g', to_int (nat (rows G) * nat (cols G)))"
    and ev: "card {i. flash_at (rows G) (cols G) (init G) i \<noteq> None} = nat (rows G) * nat (cols G)"
    by blast
  from st ev v show ?thesis
    unfolding R C by (auto simp: G_def n_def to_int_def)
qed

text \<open>
  Claim C2, as the code has it. On a valid grid no cell flashes twice within one call,
  though the code keeps no flag of the cells that have flashed: every time a cell is taken
  from the queue it is tested against \<^verbatim>\<open>'9'\<close> and then incremented, so the values it is
  tested at rise strictly and only one of them is \<^verbatim>\<open>'9'\<close>. A cell that is enqueued again
  after its flash is incremented again, above \<^verbatim>\<open>'9'\<close>, and does not flash.
\<close>

theorem one_flash_per_cell:
  assumes "valid_grid g"
    and "flash_at (rows g) (cols g) (init g) i = Some x"
    and "i \<noteq> j"
  shows "flash_at (rows g) (cols g) (init g) j \<noteq> Some x"
proof
  assume j: "flash_at (rows g) (cols g) (init g) j = Some x"
  from assms(3) consider "i < j" | "j < i" by linarith
  then show False
  proof cases
    case 1
    from no_second_flash [OF assms(1) 1 assms(2) j] show False .
  next
    case 2
    from no_second_flash [OF assms(1) 2 j assms(2)] show False .
  qed
qed

text \<open>
  In the run on the grid \<^verbatim>\<open>90 / 88\<close> the cell (0, 0) flashes in iteration 0; in
  iteration 7 it is at the front of the queue again and does not flash.
\<close>

theorem one_flash_per_cell_witness:
  "valid_grid [[chr9, chr0], [56, 56]] \<and>
   flash_at 2 2 (init [[chr9, chr0], [56, 56]]) 0 = Some (0, 0) \<and>
   (0 :: nat) \<noteq> 7 \<and>
   map_sum id (\<lambda>s. hd (Q s)) (iterate 7 2 2 (init [[chr9, chr0], [56, 56]])) = Inr (0, 0) \<and>
   flash_at 2 2 (init [[chr9, chr0], [56, 56]]) 7 \<noteq> Some (0, 0)"
proof -
  have f: "flash_at 2 2 (init [[chr9, chr0], [56, 56]]) 0 = Some (0, 0)"
    by code_simp
  have h: "map_sum id (\<lambda>s. hd (Q s)) (iterate 7 2 2 (init [[chr9, chr0], [56, 56]])) = Inr (0, 0)"
    by code_simp
  from one_flash_per_cell [OF example_valid, unfolded example_sizes, of 0 "(0, 0)" 7] f h example_valid
  show ?thesis by simp
qed

text \<open>
  The claim as the specification states it asks for a valid grid and a cell that flashes
  in two iterations of one call. There is none.
\<close>

theorem no_cell_flashes_twice:
  "\<not> (\<exists>g x i j. valid_grid g \<and> i < j \<and>
        flash_at (rows g) (cols g) (init g) i = Some x \<and>
        flash_at (rows g) (cols g) (init g) j = Some x)"
  using no_second_flash by blast

lemma lone_example:
  "lone_nine [[chr0, chr0, chr0, 53], [chr0, chr9, chr0, 56], [chr0, chr0, chr0, 50]] 1 1"
proof -
  let ?G = "[[chr0, chr0, chr0, 53], [chr0, chr9, chr0, 56], [chr0, chr0, chr0, 50 :: level]]"
  have hw: "height ?G = 3" "width ?G = 4" by simp_all
  have n: "neighbours 3 4 1 1 = [(0, 0), (0, 1), (0, 2), (1, 0), (1, 2), (2, 0), (2, 1), (2, 2)]"
    by (simp add: neighbours_filter)
  have o: "get_cell ?G a b \<noteq> chr9" if "(a, b) \<in> box 3 4" and "(a, b) \<noteq> (1, 1)" for a b
  proof -
    from that(1) have "a = 0 \<or> a = 1 \<or> a = 2" and "b = 0 \<or> b = 1 \<or> b = 2 \<or> b = 3"
      unfolding in_box_iff by arith+
    with that(2) show ?thesis by (auto simp: get_cell_def)
  qed
  have "valid_grid ?G" by (simp add: valid_grid_def rectangular_def)
  moreover have "(1, 1) \<in> box 3 4" by (simp add: in_box_iff)
  moreover have "get_cell ?G 1 1 = chr9" by (simp add: get_cell_def)
  moreover have "\<forall>(a, b) \<in> set (neighbours 3 4 1 1). get_cell ?G a b = chr0"
    unfolding n by (simp add: get_cell_def)
  moreover have "\<forall>(a, b) \<in> box 3 4. (a, b) \<noteq> (1, 1) \<longrightarrow> get_cell ?G a b \<noteq> chr9"
    using o by blast
  ultimately show ?thesis unfolding lone_nine_def hw by blast
qed

lemma lone_example_step:
  "step [[chr0, chr0, chr0, 53], [chr0, chr9, chr0, 56], [chr0, chr0, chr0, 50]]
     = Inr ([[50, 50, 50, 54], [50, chr0, 50, chr9], [50, 50, 50, 51]], 1)"
  by code_simp

lemma short_example: "lone_nine [[chr9, chr0]] 0 0"
proof -
  have b: "box 1 2 = {(0, 0), (0, 1)}" by (auto simp: in_box_iff)
  show ?thesis
    by (simp add: lone_nine_def valid_grid_def rectangular_def neighbours_filter b get_cell_def)
qed

text \<open>
  Claim C3, as the code has it. On a valid grid of fewer than \<open>2 ^ 31\<close> rows and
  fewer than \<open>2 ^ 31\<close> columns, with one cell at \<^verbatim>\<open>'9'\<close>, the neighbours of that cell
  at \<^verbatim>\<open>'0'\<close> and no other cell at \<^verbatim>\<open>'9'\<close>, one call returns 1, the centre ends at
  \<^verbatim>\<open>'0'\<close>, each neighbour of the centre rises by 2 (the increment every cell gets, and
  the one of the flash) and every other cell rises by 1.
\<close>

theorem lone_nine_step:
  assumes "lone_nine g r c" and "length g < 2 ^ 31" and "length (g ! 0) < 2 ^ 31"
  shows "\<exists>g'. step g = Inr (g', 1) \<and> map length g' = map length g \<and>
     get_cell g' r c = chr0 \<and>
     (\<forall>(a, b) \<in> set (neighbours (height g) (width g) r c). get_cell g' a b = get_cell g a b + 2) \<and>
     (\<forall>(a, b) \<in> box (height g) (width g).
        (a, b) \<noteq> (r, c) \<longrightarrow> (a, b) \<notin> set (neighbours (height g) (width g) r c) \<longrightarrow>
        get_cell g' a b = get_cell g a b + 1)"
proof -
  let ?R = "height g" and ?C = "width g"
  let ?N = "neighbours ?R ?C r c"
  note fit = sizes_fit(1) [OF assms(2)] sizes_fit(2) [OF assms(3)]
  from assms(1) have v: "valid_grid g" and p: "(r, c) \<in> box ?R ?C" and nine: "get_cell g r c = chr9"
    and nb: "\<And>a b. (a, b) \<in> set ?N \<Longrightarrow> get_cell g a b = chr0"
    and others: "\<And>a b. (a, b) \<in> box ?R ?C \<Longrightarrow> (a, b) \<noteq> (r, c) \<Longrightarrow> get_cell g a b \<noteq> chr9"
    unfolding lone_nine_def by blast+
  note n = valid_grid_nth [OF v]
  have src: "{(r, c)} \<inter> sources ?R ?C (a, b) = (if (a, b) \<in> set ?N then {(r, c)} else {})" for a b
    using p by (auto simp: sources_iff)
  have low: "unat (get_cell g a b) \<le> 56" if "(a, b) \<in> box ?R ?C" and "(a, b) \<noteq> (r, c)" for a b
  proof -
    from others [OF that] have "unat (get_cell g a b) \<noteq> 57" by (simp add: unat_eq_57)
    with n(4) [OF that(1)] show ?thesis by linarith
  qed
  have "(a, b) = (r, c)"
    if ab: "(a, b) \<in> box ?R ?C"
      and big: "58 \<le> unat (get_cell g a b) + 1 + card ({(r, c)} \<inter> sources ?R ?C (a, b))"
    for a b
  proof (rule ccontr)
    assume ne: "(a, b) \<noteq> (r, c)"
    show False
    proof (cases "(a, b) \<in> set ?N")
      case True
      with big nb [OF True] show False by (simp add: src)
    next
      case False
      with big low [OF ab ne] show False by (simp add: src)
    qed
  qed
  then have cl: "closed ?R ?C g {(r, c)}"
    unfolding closed_def by blast
  from step_valid_result [OF v, unfolded fit]
  obtain F g' where st: "step g = Inr (g', to_int (card F))"
    and least: "\<forall>S. closed ?R ?C g S \<longrightarrow> F \<subseteq> S"
    and sh: "map length g' = map length g"
    and mem: "\<And>a b. (a, b) \<in> box ?R ?C \<Longrightarrow>
        ((a, b) \<in> F \<longleftrightarrow> 58 \<le> unat (get_cell g a b) + 1 + card (F \<inter> sources ?R ?C (a, b)))"
    and cell: "\<And>a b. (a, b) \<in> box ?R ?C \<Longrightarrow>
        unat (get_cell g' a b) =
          (if (a, b) \<in> F then 48 else unat (get_cell g a b) + 1 + card (F \<inter> sources ?R ?C (a, b)))"
    by blast
  from least cl have sub: "F \<subseteq> {(r, c)}" by blast
  from mem [OF p] nine have "(r, c) \<in> F" by simp
  with sub have F: "F = {(r, c)}" by blast
  from st have st1: "step g = Inr (g', 1)" by (simp add: F to_int_def)
  have centre: "get_cell g' r c = chr0"
    using cell [OF p] F by (simp add: word_unat_eq_iff)
  have near: "get_cell g' a b = get_cell g a b + 2" if ab: "(a, b) \<in> set ?N" for a b
  proof -
    from ab neighbours_in_box [of ?R ?C r c] have b: "(a, b) \<in> box ?R ?C" by blast
    from ab not_self_neighbour [of r c ?R ?C] have "(a, b) \<noteq> (r, c)" by auto
    with F have notF: "(a, b) \<notin> F" by simp
    from src [of a b] ab F have "F \<inter> sources ?R ?C (a, b) = {(r, c)}" by simp
    with cell [OF b] notF nb [OF ab] have "unat (get_cell g' a b) = 50"
      by simp
    then have "get_cell g' a b = 50" by (simp add: word_unat_eq_iff)
    with nb [OF ab] show ?thesis by simp
  qed
  have far: "get_cell g' a b = get_cell g a b + 1"
    if b: "(a, b) \<in> box ?R ?C" and ne: "(a, b) \<noteq> (r, c)" and nn: "(a, b) \<notin> set ?N" for a b
  proof -
    from ne F have notF: "(a, b) \<notin> F" by simp
    from src [of a b] nn F have "F \<inter> sources ?R ?C (a, b) = {}" by simp
    with cell [OF b] notF have "unat (get_cell g' a b) = Suc (unat (get_cell g a b))"
      by simp
    moreover from low [OF b ne] have "unat (get_cell g a b + 1) = Suc (unat (get_cell g a b))"
      by (simp add: unat_inc)
    ultimately show ?thesis by (simp add: word_unat_eq_iff)
  qed
  from st1 sh centre near far show ?thesis by auto
qed

text \<open>
  On the grid \<^verbatim>\<open>0005 / 0908 / 0002\<close> the call returns 1 and leaves
  \<^verbatim>\<open>2226 / 2029 / 2223\<close>: the centre (1, 1) ends at \<^verbatim>\<open>'0'\<close>, the diagonal neighbour
  (0, 0) and the neighbour (1, 2) rise by 2, and the cells (0, 3) and (1, 3), which are
  not neighbours, rise by 1; the latter ends at \<^verbatim>\<open>'9'\<close> and does not flash.
\<close>

theorem lone_nine_step_witness:
  "lone_nine [[chr0, chr0, chr0, 53], [chr0, chr9, chr0, 56], [chr0, chr0, chr0, 50]] 1 1 \<and>
   (\<exists>g'. step [[chr0, chr0, chr0, 53], [chr0, chr9, chr0, 56], [chr0, chr0, chr0, 50]] = Inr (g', 1) \<and>
      g' = [[50, 50, 50, 54], [50, chr0, 50, chr9], [50, 50, 50, 51]] \<and>
      get_cell g' 1 1 = chr0 \<and>
      get_cell g' 0 0 = chr0 + 2 \<and> get_cell g' 1 2 = chr0 + 2 \<and>
      get_cell g' 0 3 = 53 + 1 \<and> get_cell g' 1 3 = 56 + 1)"
proof -
  let ?G = "[[chr0, chr0, chr0, 53], [chr0, chr9, chr0, 56], [chr0, chr0, chr0, 50 :: level]]"
  have n: "neighbours 3 4 1 1 = [(0, 0), (0, 1), (0, 2), (1, 0), (1, 2), (2, 0), (2, 1), (2, 2)]"
    by (simp add: neighbours_filter)
  have "length ?G < 2 ^ 31" and "length (?G ! 0) < 2 ^ 31" by simp_all
  from lone_nine_step [OF lone_example this]
  obtain g' where st: "step ?G = Inr (g', 1)" and c: "get_cell g' 1 1 = chr0"
    and near: "\<forall>(a, b) \<in> set (neighbours (height ?G) (width ?G) 1 1).
        get_cell g' a b = get_cell ?G a b + 2"
    and far: "\<forall>(a, b) \<in> box (height ?G) (width ?G).
        (a, b) \<noteq> (1, 1) \<longrightarrow> (a, b) \<notin> set (neighbours (height ?G) (width ?G) 1 1) \<longrightarrow>
        get_cell g' a b = get_cell ?G a b + 1"
    by blast
  from st have g': "g' = [[50, 50, 50, 54], [50, chr0, 50, chr9], [50, 50, 50, 51]]"
    by (simp add: lone_example_step)
  from bspec [OF near, of "(0, 0)"] bspec [OF near, of "(1, 2)"]
  have "get_cell g' 0 0 = chr0 + 2" and "get_cell g' 1 2 = chr0 + 2"
    by (simp_all add: n get_cell_def)
  moreover from bspec [OF far, of "(0, 3)"] bspec [OF far, of "(1, 3)"]
  have "get_cell g' 0 3 = 53 + 1" and "get_cell g' 1 3 = 56 + 1"
    by (simp_all add: n in_box_iff get_cell_def)
  ultimately show ?thesis using lone_example st c g' by blast
qed

text \<open>
  The claim as the specification states it fails twice. It has each neighbour rise by
  exactly 1: on the grid \<^verbatim>\<open>90\<close> the neighbour ends at \<^verbatim>\<open>'2'\<close>. And it has the call
  return 1 on every such grid: on one row of \<open>2 ^ 31\<close> cells at \<^verbatim>\<open>'0'\<close> followed by a
  \<^verbatim>\<open>'9'\<close> the cast gives a negative \<^verbatim>\<open>C\<close>, nothing is queued, and the call returns
  0 and leaves the \<^verbatim>\<open>'9'\<close>.
\<close>

theorem neighbour_rises_by_two:
  "lone_nine [[chr9, chr0]] 0 0 \<and> (0, 1) \<in> set (neighbours 1 2 0 0) \<and>
   step [[chr9, chr0]] = Inr ([[chr0, 50]], 1) \<and>
   get_cell [[chr0, 50]] 0 1 \<noteq> get_cell [[chr9, chr0]] 0 1 + 1 \<and>
   lone_nine [replicate (2 ^ 31) chr0 @ [chr9]] 0 (2 ^ 31) \<and>
   step [replicate (2 ^ 31) chr0 @ [chr9]] = Inr ([replicate (2 ^ 31) chr0 @ [chr9]], 0)"
proof -
  have a: "step [[chr9, chr0]] = Inr ([[chr0, 50]], 1)" by code_simp
  define n :: nat where "n = 2 ^ 31"
  define G :: grid where "G = [replicate n chr0 @ [chr9]]"
  have hw: "height G = 1" "width G = int n + 1" by (simp_all add: G_def)
  have cell: "get_cell G 0 c = (if c = int n then chr9 else chr0)" if "0 \<le> c" "c \<le> int n" for c
    using that by (auto simp: G_def get_cell_def nth_append)
  have v: "valid_grid G"
    by (simp add: G_def valid_grid_def rectangular_def)
  have l: "lone_nine G 0 (int n)"
    unfolding lone_nine_def hw
  proof (intro conjI ballI)
    show "valid_grid G" by (rule v)
    show "(0, int n) \<in> box 1 (int n + 1)" by (simp add: in_box_iff)
    show "get_cell G 0 (int n) = chr9" by (simp add: cell)
    show "case z of (a, b) \<Rightarrow> get_cell G a b = chr0"
      if "z \<in> set (neighbours 1 (int n + 1) 0 (int n))" for z
    proof -
      obtain a b where z: "z = (a, b)" by (cases z)
      from that [unfolded z neighbours_iff in_box_iff] have "a = 0" "0 \<le> b" "b < int n"
        by auto
      with z show ?thesis by (simp add: cell)
    qed
    show "case z of (a, b) \<Rightarrow> (a, b) \<noteq> (0, int n) \<longrightarrow> get_cell G a b \<noteq> chr9"
      if "z \<in> box 1 (int n + 1)" for z
    proof -
      obtain a b where z: "z = (a, b)" by (cases z)
      from that z have "a = 0" "0 \<le> b" "b \<le> int n" by (auto simp: in_box_iff)
      with z show ?thesis by (simp add: cell)
    qed
  qed
  have c: "cols G = - (2 ^ 31) + 1" by (simp add: G_def n_def to_int_def)
  have q: "all_coords (rows G) (cols G) = []" unfolding c by (simp add: all_coords_def)
  have "Q (init G) = []" by (simp add: init_def q)
  then have w: "while_loop (rows G) (cols G) (init G) = Inr (init G)"
    by (simp add: while_loop.simps [of "rows G" "cols G" "init G"])
  have s: "step G = Inr (G, 0)"
    unfolding step_def Let_def w q by (simp add: init_def G_def)
  from a short_example l s show ?thesis
    by (simp add: neighbours_filter get_cell_def G_def n_def)
qed

text \<open>
  Claim C4. On the 3 x 3 grid in which every cell is \<^verbatim>\<open>'9'\<close>, one call of \<^verbatim>\<open>step\<close>
  returns 9 and leaves every cell at \<^verbatim>\<open>'0'\<close>: each cell flashes when its first queue
  entry is taken, and the 40 neighbour entries that follow only push cells further above
  \<^verbatim>\<open>'9'\<close>.
\<close>

theorem step_all_nines_3x3:
  "step [[chr9, chr9, chr9], [chr9, chr9, chr9], [chr9, chr9, chr9]]
     = Inr ([[chr0, chr0, chr0], [chr0, chr0, chr0], [chr0, chr0, chr0]], 9)"
  by code_simp

text \<open>
  Claim C5, as the code has it. On every non-empty rectangular grid of zeros with fewer
  than \<open>2 ^ 31\<close> rows and fewer than \<open>2 ^ 31\<close> columns, one call returns 0 and leaves
  every cell at \<^verbatim>\<open>'1'\<close> (code 49).
\<close>

theorem step_all_zeros:
  assumes "all_zeros g" and "length g < 2 ^ 31" and "length (g ! 0) < 2 ^ 31"
  shows "step g = Inr (map (map (\<lambda>_. 49)) g, 0)"
proof -
  let ?R = "height g" and ?C = "width g"
  note fit = sizes_fit(1) [OF assms(2)] sizes_fit(2) [OF assms(3)]
  from assms(1) have ne: "g \<noteq> []" and rect: "rectangular g"
    and z: "\<forall>row \<in> set g. \<forall>v \<in> set row. v = chr0"
    unfolding all_zeros_def by blast+
  have "chr0 \<le> v \<and> v \<le> chr9" if "v = chr0" for v :: level
    using that by simp
  with z have "\<forall>row \<in> set g. \<forall>v \<in> set row. chr0 \<le> v \<and> v \<le> chr9" by blast
  with ne rect have v: "valid_grid g" by (simp add: valid_grid_def)
  note n = valid_grid_nth [OF v]
  have g0: "get_cell g r c = chr0" if "(r, c) \<in> box ?R ?C" for r c
    using n(5) [OF that] z by blast
  from g0 have cl: "closed ?R ?C g {}" by (auto simp: closed_def)
  from step_valid_result [OF v, unfolded fit]
  obtain F g' where st: "step g = Inr (g', to_int (card F))"
    and least: "\<forall>S. closed ?R ?C g S \<longrightarrow> F \<subseteq> S"
    and sh: "map length g' = map length g"
    and cell: "\<And>a b. (a, b) \<in> box ?R ?C \<Longrightarrow>
        unat (get_cell g' a b) =
          (if (a, b) \<in> F then 48 else unat (get_cell g a b) + 1 + card (F \<inter> sources ?R ?C (a, b)))"
    by blast
  from least cl have F: "F = {}" by blast
  from st have st0: "step g = Inr (g', 0)" by (simp add: F to_int_def)
  note l = shape_nth [OF sh]
  have "g' = map (map (\<lambda>_. 49)) g"
  proof (rule nth_equalityI)
    show "length g' = length (map (map (\<lambda>_. 49)) g)" using l(1) by simp
    fix i assume "i < length g'"
    with l(1) have i: "i < length g" by simp
    have "g' ! i = map (\<lambda>_. 49) (g ! i)"
    proof (rule nth_equalityI)
      show "length (g' ! i) = length (map (\<lambda>_. 49) (g ! i))" using l(2) [OF i] by simp
      fix j assume "j < length (g' ! i)"
      with l(2) [OF i] n(2) [OF i] have j: "j < length (g ! i)" "j < length (g ! 0)" by simp_all
      from box_nth [OF i j(2)] have b: "(int i, int j) \<in> box ?R ?C" .
      from cell [OF b] g0 [OF b] have "unat (g' ! i ! j) = 49" by (simp add: get_cell_nth F)
      then have "g' ! i ! j = 49" by (simp add: word_unat_eq_iff)
      with j show "g' ! i ! j = map (\<lambda>_. 49) (g ! i) ! j" by simp
    qed
    with i show "g' ! i = map (map (\<lambda>_. 49)) g ! i" by simp
  qed
  with st0 show ?thesis by simp
qed

theorem step_all_zeros_witness:
  "all_zeros [[chr0, chr0, chr0], [chr0, chr0, chr0]] \<and>
   step [[chr0, chr0, chr0], [chr0, chr0, chr0]] = Inr ([[49, 49, 49], [49, 49, 49]], 0)"
proof -
  have z: "all_zeros [[chr0, chr0, chr0], [chr0, chr0, chr0]]"
    by (simp add: all_zeros_def rectangular_def)
  from step_all_zeros [OF z] z show ?thesis by simp
qed

text \<open>
  The claim as the specification states it covers every grid of zeros. On one row of
  \<open>2 ^ 31\<close> zeros the cast of the row's length is \<open>- 2 ^ 31\<close>: no position is queued,
  the sweep visits none, and the call returns 0 with every cell still at \<^verbatim>\<open>'0'\<close>.
\<close>

theorem wide_row_of_zeros_untouched:
  "all_zeros [replicate (2 ^ 31) chr0] \<and>
   step [replicate (2 ^ 31) chr0] = Inr ([replicate (2 ^ 31) chr0], 0) \<and>
   [replicate (2 ^ 31) chr0] \<noteq> map (map (\<lambda>_. 49)) [replicate (2 ^ 31) chr0]"
proof -
  define n :: nat where "n = 2 ^ 31"
  define G :: grid where "G = [replicate n chr0]"
  have n0: "0 < n" by (simp add: n_def)
  have z: "all_zeros G" by (simp add: G_def all_zeros_def rectangular_def)
  have c: "cols G = - (2 ^ 31)" by (simp add: G_def n_def to_int_def)
  have q: "all_coords (rows G) (cols G) = []" unfolding c by (simp add: all_coords_def)
  have "Q (init G) = []" by (simp add: init_def q)
  then have w: "while_loop (rows G) (cols G) (init G) = Inr (init G)"
    by (simp add: while_loop.simps [of "rows G" "cols G" "init G"])
  have s: "step G = Inr (G, 0)"
    unfolding step_def Let_def w q by (simp add: init_def G_def)
  from n0 have "replicate n chr0 \<noteq> map (\<lambda>_. 49) (replicate n chr0)"
    by (cases n) simp_all
  with z s show ?thesis by (simp add: G_def n_def)
qed




text \<open>
  Claim C8. On a valid grid, after any number of iterations the loop has not failed, the
  queue holds positions inside \<^verbatim>\<open>[0, R) x [0, C)\<close> only, and the grid has a cell at
  every such position; the sweep then finds every cell it reads, and the call returns.
\<close>

theorem queue_within_bounds:
  assumes "valid_grid g"
  shows "(\<forall>k. \<exists>s. iterate k (rows g) (cols g) (init g) = Inr s \<and>
            set (Q s) \<subseteq> box (rows g) (cols g) \<and> covers (rows g) (cols g) (levels s)) \<and>
         (\<exists>g' n. step g = Inr (g', n))"
proof
  note ok = valid_grid_start [OF assms]
  show "\<forall>k. \<exists>s. iterate k (rows g) (cols g) (init g) = Inr s \<and>
            set (Q s) \<subseteq> box (rows g) (cols g) \<and> covers (rows g) (cols g) (levels s)"
  proof
    fix k
    from iterate_run_inv [OF ok run_inv_init [OF ok], of k]
    obtain s where it: "iterate k (rows g) (cols g) (init g) = Inr s"
      and i: "run_inv (rows g) (cols g) g s" by blast
    from i have "map length (levels s) = map length g" and q: "set (Q s) \<subseteq> box (rows g) (cols g)"
      by (simp_all add: run_inv_def)
    from covers_shape [OF this(1), of "rows g" "cols g"] ok
    have "covers (rows g) (cols g) (levels s)" by (simp add: start_ok_def)
    with it q show "\<exists>s. iterate k (rows g) (cols g) (init g) = Inr s \<and>
            set (Q s) \<subseteq> box (rows g) (cols g) \<and> covers (rows g) (cols g) (levels s)"
      by blast
  qed
  show "\<exists>g' n. step g = Inr (g', n)" by (rule step_valid_returns [OF assms])
qed

theorem queue_within_bounds_witness:
  "valid_grid [[chr9, chr0], [56, 56]] \<and>
   (\<forall>k. \<exists>s. iterate k 2 2 (init [[chr9, chr0], [56, 56]]) = Inr s \<and>
      set (Q s) \<subseteq> box 2 2 \<and> covers 2 2 (levels s)) \<and>
   (\<exists>g' n. step [[chr9, chr0], [56, 56]] = Inr (g', n))"
  using queue_within_bounds [OF example_valid, unfolded example_sizes] example_valid by simp

text \<open>
  Claim C9. On a valid grid the loop exits: after some number \<open>k\<close> of iterations the
  queue is empty, with \<open>k\<close> at most \<^verbatim>\<open>R * C\<close> plus 8 for each flash, and at most
  \<^verbatim>\<open>R * C\<close> flashes, \<^verbatim>\<open>R * C\<close> being at most the number of cells of the grid; the
  counter then holds the number of flashes (modulo \<open>2 ^ 32\<close>), and the sweep and the
  return follow.
\<close>

theorem loop_terminates:
  assumes "valid_grid g"
  shows "\<exists>k s g'. iterate k (rows g) (cols g) (init g) = Inr s \<and> Q s = [] \<and>
           k \<le> nat (rows g) * nat (cols g)
                 + 8 * card {i. flash_at (rows g) (cols g) (init g) i \<noteq> None} \<and>
           card {i. flash_at (rows g) (cols g) (init g) i \<noteq> None} \<le> nat (rows g) * nat (cols g) \<and>
           nat (rows g) * nat (cols g) \<le> length g * length (g ! 0) \<and>
           num_flashes s = of_nat (card {i. flash_at (rows g) (cols g) (init g) i \<noteq> None}) \<and>
           step g = Inr (g', sint (num_flashes s))"
proof -
  let ?R = "rows g" and ?C = "cols g"
  let ?E = "{i. flash_at ?R ?C (init g) i \<noteq> None}"
  note ok = valid_grid_start [OF assms]
  note i0 = run_inv_init [OF ok]
  from step_valid [OF assms]
  obtain s g' k where it: "iterate k ?R ?C (init g) = Inr s" and e: "Q s = []"
    and i: "run_inv ?R ?C g s"
    and m: "k \<le> nat ?R * nat ?C + 8 * card (flashed ?R ?C (levels s))"
    and st: "step g = Inr (g', sint (num_flashes s))"
    by blast
  have l0: "levels (init g) = g" by (simp add: init_def)
  from flashes_total [OF ok i0 it e]
  have ev: "card (flashed ?R ?C (levels s)) = card ?E"
    unfolding l0 start_not_flashed [OF ok] by simp
  from i have n: "num_flashes s = of_nat (card ?E)"
    unfolding ev [symmetric] by (simp add: run_inv_def)
  have "card (flashed ?R ?C (levels s)) \<le> card (box ?R ?C)"
    by (rule card_mono) (simp_all add: flashed_in_box)
  then have b: "card ?E \<le> nat ?R * nat ?C" unfolding ev card_box .
  have "nat ?R \<le> length g" "nat ?C \<le> length (g ! 0)"
    using to_int_le [of "length g"] to_int_le [of "length (g ! 0)"] by simp_all
  then have sz: "nat ?R * nat ?C \<le> length g * length (g ! 0)" by (rule mult_le_mono)
  from m have m': "k \<le> nat ?R * nat ?C + 8 * card ?E" unfolding ev .
  from it e m' b sz n st show ?thesis by blast
qed

theorem loop_terminates_witness:
  "valid_grid [[chr9, chr0], [56, 56]] \<and>
   (\<exists>k s g'. iterate k 2 2 (init [[chr9, chr0], [56, 56]]) = Inr s \<and> Q s = [] \<and>
      k \<le> 4 + 8 * card {i. flash_at 2 2 (init [[chr9, chr0], [56, 56]]) i \<noteq> None} \<and>
      card {i. flash_at 2 2 (init [[chr9, chr0], [56, 56]]) i \<noteq> None} \<le> 4 \<and>
      num_flashes s = of_nat (card {i. flash_at 2 2 (init [[chr9, chr0], [56, 56]]) i \<noteq> None}) \<and>
      step [[chr9, chr0], [56, 56]] = Inr (g', sint (num_flashes s)))"
proof -
  from loop_terminates [OF example_valid, unfolded example_sizes]
  obtain k s g' where "iterate k 2 2 (init [[chr9, chr0], [56, 56]]) = Inr s" "Q s = []"
    "k \<le> nat 2 * nat 2 + 8 * card {i. flash_at 2 2 (init [[chr9, chr0], [56, 56]]) i \<noteq> None}"
    "card {i. flash_at 2 2 (init [[chr9, chr0], [56, 56]]) i \<noteq> None} \<le> nat 2 * nat 2"
    "num_flashes s = of_nat (card {i. flash_at 2 2 (init [[chr9, chr0], [56, 56]]) i \<noteq> None})"
    "step [[chr9, chr0], [56, 56]] = Inr (g', sint (num_flashes s))"
    by blast
  then have "\<exists>k s g'. iterate k 2 2 (init [[chr9, chr0], [56, 56]]) = Inr s \<and> Q s = [] \<and>
      k \<le> 4 + 8 * card {i. flash_at 2 2 (init [[chr9, chr0], [56, 56]]) i \<noteq> None} \<and>
      card {i. flash_at 2 2 (init [[chr9, chr0], [56, 56]]) i \<noteq> None} \<le> 4 \<and>
      num_flashes s = of_nat (card {i. flash_at 2 2 (init [[chr9, chr0], [56, 56]]) i \<noteq> None}) \<and>
      step [[chr9, chr0], [56, 56]] = Inr (g', sint (num_flashes s))"
    by (intro exI [of _ k] exI [of _ s] exI [of _ g']) simp
  with example_valid show ?thesis by blast
qed

text \<open>
  Claim C10. Whenever \<^verbatim>\<open>step\<close> returns, the grid has as many rows as before and each
  row has the length it had: the call only overwrites cells.
\<close>

theorem step_preserves_shape:
  "step g = Inr (g', n) \<Longrightarrow> length g' = length g \<and> map length g' = map length g"
  using step_shape [of g g' n] map_eq_imp_length_eq [of length g' length g] by simp

theorem step_preserves_shape_witness:
  "step [[chr9, chr0], [56, 56]] = Inr ([[chr0, 52], [chr0, chr0]], 3) \<and>
   length [[chr0, 52], [chr0, chr0 :: level]] = length [[chr9, chr0], [56, 56 :: level]] \<and>
   map length [[chr0, 52], [chr0, chr0 :: level]] = map length [[chr9, chr0], [56, 56 :: level]]"
proof -
  have e: "step [[chr9, chr0], [56, 56]] = Inr ([[chr0, 52], [chr0, chr0]], 3)"
    by code_simp
  from step_preserves_shape [OF e] e show ?thesis by simp
qed

end
